theory Spec2Isabelle
  imports Main
begin

section \<open>Values, paths and references\<close>

text \<open>
  A path is the ordered sequence of its segments; the root is the empty path.

  Modelled from the spec: \<^verbatim>\<open>Node\<close> (core/snap/Node is not among the source files) is the
  Value of the spec, a JSON-like tree.
\<close>

type_synonym path = "string list"

datatype val = Null | Num int | Str string | Obj "(string \<times> val) list"

text \<open>A JavaScript \<^verbatim>\<open>throw\<close> carries any value: an \<^verbatim>\<open>Error\<close> object or, here, a plain string.\<close>

datatype js_error = Error string

datatype thrown = ThrownError js_error | ThrownString string

fun isErrorInstance :: "thrown \<Rightarrow> bool" where
  "isErrorInstance (ThrownError _) = True"
| "isErrorInstance (ThrownString _) = False"

text \<open>
  \<^verbatim>\<open>ref._repo\<close> and \<^verbatim>\<open>ref._path\<close> of a DatabaseReference. The argument \<open>ref\<close> of the
  model is the modular instance, that is the value of line 100 of Transaction.ts.
\<close>

record reference =
  ref_repo :: nat
  ref_path :: path

definition ReferenceImpl :: "nat \<Rightarrow> path \<Rightarrow> reference" where
  "ReferenceImpl r p = \<lparr>ref_repo = r, ref_path = p\<rparr>"

text \<open>
  Modelled from the spec: the \<^verbatim>\<open>key\<close> getter of ReferenceImpl (Reference_impl.ts is not
  among the source files). A Path is an ordered sequence of string segments, and the key
  of a reference is the final segment of its path; the root has the key \<^verbatim>\<open>null\<close>.
\<close>

definition key :: "reference \<Rightarrow> string option" where
  "key r = (if ref_path r = [] then None else Some (last (ref_path r)))"

text \<open>A strict ancestor segment of the path is one of the reserved meta-keys.\<close>

definition reservedKey :: "string \<Rightarrow> bool" where
  "reservedKey k = (k = ''.length'' \<or> k = ''.keys'')"

definition reservedAncestor :: "path \<Rightarrow> bool" where
  "reservedAncestor p = list_ex reservedKey (butlast p)"

section \<open>Transaction.ts\<close>

datatype index = PRIORITY_INDEX

record DataSnapshot =
  snap_node :: "val option"
  snap_ref :: reference
  snap_index :: index

record TransactionResult =
  committed :: bool
  snapshot :: DataSnapshot

record TransactionOptions =
  applyLocally :: "bool option"

text \<open>
  The developer-supplied update function returns the new value, returns
  \<^verbatim>\<open>undefined\<close> (abort), or throws.
\<close>

datatype update_result = Return val | ReturnUndefined | Throw js_error

text \<open>
  Modelled from the spec: \<^verbatim>\<open>Deferred\<close> of @firebase/util is not among the source files.
  It is the single-assignment result cell of the spec (resolved at most once): a promise
  that is pending, fulfilled or rejected, with \<^verbatim>\<open>resolve\<close> and \<^verbatim>\<open>reject\<close> settling it only
  while it is pending. The field \<open>calls\<close> records every call of \<^verbatim>\<open>resolve\<close> and
  \<^verbatim>\<open>reject\<close>, whether or not it settled the promise.
\<close>

datatype promise_state = Pending | Fulfilled TransactionResult | Rejected js_error

datatype deferred_call = CallResolve TransactionResult | CallReject js_error

record Deferred =
  promise :: promise_state
  calls :: "deferred_call list"

definition new_Deferred :: Deferred where
  "new_Deferred = \<lparr>promise = Pending, calls = []\<rparr>"

definition resolve :: "TransactionResult \<Rightarrow> Deferred \<Rightarrow> Deferred" where
  "resolve r d =
     d\<lparr>promise := (case promise d of Pending \<Rightarrow> Fulfilled r | s \<Rightarrow> s),
       calls := calls d @ [CallResolve r]\<rparr>"

definition reject :: "js_error \<Rightarrow> Deferred \<Rightarrow> Deferred" where
  "reject e d =
     d\<lparr>promise := (case promise d of Pending \<Rightarrow> Rejected e | s \<Rightarrow> s),
       calls := calls d @ [CallReject e]\<rparr>"

text \<open>
  \<^verbatim>\<open>promiseComplete\<close> (Transaction.ts, lines 113 to 129), a closure over \<open>ref\<close> and the
  Deferred: the Deferred is passed in and returned. An \<^verbatim>\<open>Error | null\<close> is truthy exactly
  when it is not null.
\<close>

definition promiseComplete ::
  "reference \<Rightarrow> js_error option \<Rightarrow> bool \<Rightarrow> val option \<Rightarrow> Deferred \<Rightarrow> Deferred" where
  "promiseComplete ref error committed' node deferred =
     (case error of
        Some e \<Rightarrow> reject e deferred
      | None \<Rightarrow>
          (let dataSnapshot =
                 \<lparr>snap_node = node,
                  snap_ref = ReferenceImpl (ref_repo ref) (ref_path ref),
                  snap_index = PRIORITY_INDEX\<rparr>
           in resolve \<lparr>committed = committed', snapshot = dataSnapshot\<rparr> deferred))"

text \<open>
  The callback invoked several times in a row, each time with its three arguments, as a
  caller of \<^verbatim>\<open>promiseComplete\<close> that does not guard against a second call would do.
\<close>

definition invokeAll ::
  "reference \<Rightarrow> (js_error option \<times> bool \<times> val option) list \<Rightarrow> Deferred \<Rightarrow> Deferred" where
  "invokeAll ref args d =
     foldl (\<lambda>d (error, committed', node). promiseComplete ref error committed' node d) d args"

text \<open>
  The completion callback as a value: the closure \<^verbatim>\<open>promiseComplete\<close> is the index of its
  Deferred among the Deferreds created so far, and its \<open>ref\<close>.
\<close>

datatype callback = PromiseComplete nat reference

text \<open>The six arguments of a call of \<^verbatim>\<open>repoStartTransaction\<close>.\<close>

record start_call =
  sc_repo :: nat
  sc_path :: path
  sc_transactionUpdate :: "val \<Rightarrow> update_result"
  sc_onComplete :: callback
  sc_unwatcher :: nat
  sc_applyLocally :: bool

section \<open>The state of the client\<close>

datatype status = RUN | SENT | COMPLETED | SENT_NEEDS_ABORT

text \<open>
  Modelled from the spec: the TransactionEntry of core/Repo.ts (not among the source
  files), with the fields of the spec's data model. The entry also keeps what
  \<^verbatim>\<open>repoStartTransaction\<close> is given (\<open>onComplete\<close>, \<open>unwatcher\<close>), the id of its pending
  write, if it registered one, and the number of attempts made so far (the retry counter
  the spec asks for).
\<close>

record TransactionEntry =
  t_path :: path
  updateFn :: "val \<Rightarrow> update_result"
  order :: nat
  status :: status
  currentInputSnapshot :: val
  currentOutputValue :: "val option"
  t_applyLocally :: bool
  onComplete :: callback
  unwatcher :: nat
  currentWriteId :: "nat option"
  attempts :: nat

text \<open>Modelled from the spec: the PendingWrite of the Pending-Write Registry.\<close>

record PendingWrite =
  w_path :: path
  w_value :: val
  writeId :: nat
  visible :: bool

text \<open>
  Modelled from the spec: a call of \<^verbatim>\<open>submitConditionalWrite(path, value, versionToken)\<close>;
  \<open>cw_order\<close> is the order of the transaction that submitted it.
\<close>

record ConditionalWrite =
  cw_order :: nat
  cw_path :: path
  cw_value :: val
  cw_precondition :: val

text \<open>
  Modelled from the spec: the terminal outcome of a transaction (Result Delivery):
  committed with the accepted value, aborted (by the update function, or by an overwrite,
  then with the write-canceled condition), or failed with an error.
\<close>

datatype condition = SET_RAW_VALUE_ERROR

datatype outcome = Committed val | Aborted "condition option" val | Failed js_error

text \<open>
  The state that the functions below pass along: the Deferreds created and the value
  listeners registered by \<^verbatim>\<open>runTransaction\<close>, and the sync session of the spec (last-known
  server value, Pending-Write Registry, Transaction Queue, the conditional writes
  submitted to the server and the outcomes delivered).
\<close>

record world =
  deferreds :: "Deferred list"
  watches :: "reference list"
  serverValue :: val
  writes :: "PendingWrite list"
  nextWriteId :: nat
  queue :: "TransactionEntry list"
  nextOrder :: nat
  submitted :: "ConditionalWrite list"
  delivered :: "(nat \<times> outcome) list"

definition initial :: "val \<Rightarrow> world" where
  "initial sv =
     \<lparr>deferreds = [], watches = [], serverValue = sv, writes = [], nextWriteId = 0,
      queue = [], nextOrder = 0, submitted = [], delivered = []\<rparr>"

text \<open>\<^verbatim>\<open>new Deferred<TransactionResult>()\<close>: a fresh pending cell; its index is returned.\<close>

definition newDeferred :: "world \<Rightarrow> nat \<times> world" where
  "newDeferred w = (length (deferreds w), w\<lparr>deferreds := deferreds w @ [new_Deferred]\<rparr>)"

text \<open>
  \<^verbatim>\<open>runTransaction\<close> (Transaction.ts, lines 94 to 144). \<^verbatim>\<open>validateWritablePath\<close>
  (core/util/validation), \<^verbatim>\<open>onValue\<close> (Reference_impl) and \<^verbatim>\<open>repoStartTransaction\<close>
  (core/Repo) are not among the source files and are parameters. The first returns what it
  throws, if it throws. The other two transform the state and may throw as well:
  \<^verbatim>\<open>onValue\<close> returns the unsubscribe handle or the value thrown,
  \<^verbatim>\<open>repoStartTransaction\<close> the value thrown, if any. Nothing in \<^verbatim>\<open>runTransaction\<close> catches
  an exception, so a throw out of either ends the call, in the state the callee left. The
  result is the value thrown or the promise returned (the index of its Deferred), with the
  state at that point. Concatenating \<^verbatim>\<open>null\<close> to a string gives \<^verbatim>\<open>"null"\<close>.
\<close>

definition runTransaction ::
  "(string \<Rightarrow> path \<Rightarrow> thrown option) \<Rightarrow> (reference \<Rightarrow> world \<Rightarrow> (thrown + nat) \<times> world) \<Rightarrow>
   (start_call \<Rightarrow> world \<Rightarrow> thrown option \<times> world) \<Rightarrow>
   reference \<Rightarrow> (val \<Rightarrow> update_result) \<Rightarrow> TransactionOptions option \<Rightarrow> world \<Rightarrow>
   (thrown + nat) \<times> world" where
  "runTransaction validateWritablePath onValue repoStartTransaction ref transactionUpdate options w =
     (case validateWritablePath ''Reference.transaction'' (ref_path ref) of
        Some t \<Rightarrow> (Inl t, w)
      | None \<Rightarrow>
          if key ref = Some ''.length'' \<or> key ref = Some ''.keys'' then
            (Inl (ThrownString
                   (''Reference.transaction failed: '' @
                    (case key ref of Some k \<Rightarrow> k | None \<Rightarrow> ''null'') @
                    '' is a read-only object.'')), w)
          else
            (let applyLocally' =
                   (case options of
                      None \<Rightarrow> True
                    | Some opts \<Rightarrow> (case applyLocally opts of None \<Rightarrow> True | Some b \<Rightarrow> b));
                 (deferred, w1) = newDeferred w
             in case onValue ref w1 of
                  (Inl t, w2) \<Rightarrow> (Inl t, w2)
                | (Inr unwatcher', w2) \<Rightarrow>
                    (case repoStartTransaction
                            \<lparr>sc_repo = ref_repo ref,
                             sc_path = ref_path ref,
                             sc_transactionUpdate = transactionUpdate,
                             sc_onComplete = PromiseComplete deferred ref,
                             sc_unwatcher = unwatcher',
                             sc_applyLocally = applyLocally'\<rparr> w2 of
                       (Some t, w3) \<Rightarrow> (Inl t, w3)
                     | (None, w3) \<Rightarrow> (Inr deferred, w3))))"

text \<open>
  The last two lines of \<^verbatim>\<open>runTransaction\<close>, for the promise \<open>d\<close> and the outcome of
  \<^verbatim>\<open>repoStartTransaction\<close>: its exception, or else the promise.
\<close>

fun promiseUnlessThrown :: "nat \<Rightarrow> thrown option \<times> world \<Rightarrow> (thrown + nat) \<times> world" where
  "promiseUnlessThrown d (Some t, w) = (Inl t, w)"
| "promiseUnlessThrown d (None, w) = (Inr d, w)"

text \<open>
  Modelled from the spec: \<^verbatim>\<open>onValue\<close> of Reference_impl.ts (not among the source files)
  is the \<^verbatim>\<open>subscribe(path, onChange) -> unsubscribeHandle\<close> of the sync engine: it registers
  a value listener on \<open>ref\<close> and returns its handle, here the index of the registration;
  the spec gives it no failure.
\<close>

definition subscribe :: "reference \<Rightarrow> world \<Rightarrow> (thrown + nat) \<times> world" where
  "subscribe ref w = (Inr (length (watches w)), w\<lparr>watches := watches w @ [ref]\<rparr>)"

section \<open>The sync session\<close>

subsection \<open>Pending-Write Registry\<close>

text \<open>
  Modelled from the spec: reading and writing a Value at a path (the tree operations of
  the sync engine are not among the source files); a missing child reads as \<open>Null\<close>.
\<close>

fun child :: "string \<Rightarrow> val \<Rightarrow> val" where
  "child k (Obj kvs) = (case map_of kvs k of Some c \<Rightarrow> c | None \<Rightarrow> Null)"
| "child k _ = Null"

fun children :: "val \<Rightarrow> (string \<times> val) list" where
  "children (Obj kvs) = kvs"
| "children _ = []"

fun setChild :: "string \<Rightarrow> val \<Rightarrow> (string \<times> val) list \<Rightarrow> (string \<times> val) list" where
  "setChild k c [] = [(k, c)]"
| "setChild k c ((k', c') # kvs) =
     (if k = k' then (k, c) # kvs else (k', c') # setChild k c kvs)"

fun getAt :: "path \<Rightarrow> val \<Rightarrow> val" where
  "getAt [] v = v"
| "getAt (k # ks) v = getAt ks (child k v)"

fun setAt :: "path \<Rightarrow> val \<Rightarrow> val \<Rightarrow> val" where
  "setAt [] x v = x"
| "setAt (k # ks) x v = Obj (setChild k (setAt ks x (child k v)) (children v))"

text \<open>
  Modelled from the spec: \<^verbatim>\<open>overlayedValue\<close>, \<^verbatim>\<open>addWrite\<close> and \<^verbatim>\<open>removeWrite\<close> of the
  Pending-Write Registry (core/Repo.ts and the sync tree are not among the source
  files). The registry is kept in writeId order; the visible writes are applied in that
  order to the last-known server value, so that a later write at an ancestor supersedes
  an earlier one below it and a write below overlays a part of the value. Removing a
  write that is not there changes nothing.
\<close>

definition overlayedValue :: "world \<Rightarrow> path \<Rightarrow> val" where
  "overlayedValue w p =
     getAt p (foldl (\<lambda>t pw. setAt (w_path pw) (w_value pw) t) (serverValue w)
                (filter visible (writes w)))"

definition addWrite :: "path \<Rightarrow> val \<Rightarrow> world \<Rightarrow> nat \<times> world" where
  "addWrite p v w =
     (nextWriteId w,
      w\<lparr>writes := writes w @ [\<lparr>w_path = p, w_value = v, writeId = nextWriteId w, visible = True\<rparr>],
        nextWriteId := Suc (nextWriteId w)\<rparr>)"

definition removeWrite :: "nat \<Rightarrow> world \<Rightarrow> world" where
  "removeWrite i w = w\<lparr>writes := filter (\<lambda>pw. writeId pw \<noteq> i) (writes w)\<rparr>"

definition removeWriteOf :: "TransactionEntry \<Rightarrow> world \<Rightarrow> world" where
  "removeWriteOf e w = (case currentWriteId e of None \<Rightarrow> w | Some i \<Rightarrow> removeWrite i w)"

subsection \<open>Transaction Queue\<close>

text \<open>
  Modelled from the spec: \<^verbatim>\<open>repoStartTransaction\<close> of core/Repo.ts (not among the source
  files) is the \<^verbatim>\<open>enqueue\<close> of the Transaction Queue: a new entry in status RUN, with the
  next order, at the end of the queue.
\<close>

definition enqueue :: "start_call \<Rightarrow> world \<Rightarrow> world" where
  "enqueue c w =
     w\<lparr>queue := queue w @
         [\<lparr>t_path = sc_path c, updateFn = sc_transactionUpdate c, order = nextOrder w,
           status = RUN, currentInputSnapshot = Null, currentOutputValue = None,
           t_applyLocally = sc_applyLocally c, onComplete = sc_onComplete c,
           unwatcher = sc_unwatcher c, currentWriteId = None, attempts = 0\<rparr>],
       nextOrder := Suc (nextOrder w)\<rparr>"

text \<open>
  Modelled from the spec: \<^verbatim>\<open>repoStartTransaction\<close> as \<^verbatim>\<open>runTransaction\<close> calls it. In the
  spec the update function is first invoked by the Runner, when the entry is attempted,
  and an exception of it completes the entry; enqueuing itself throws nothing.
\<close>

definition enqueueTransaction :: "start_call \<Rightarrow> world \<Rightarrow> thrown option \<times> world" where
  "enqueueTransaction c w = (None, enqueue c w)"

text \<open>
  Modelled from the spec: \<^verbatim>\<open>nextSendable(path)\<close>, the earliest RUN entry for the path,
  provided no entry for the path is SENT.
\<close>

definition nextSendable :: "path \<Rightarrow> world \<Rightarrow> TransactionEntry option" where
  "nextSendable p w =
     (if list_ex (\<lambda>e. t_path e = p \<and> status e = SENT) (queue w) then None
      else find (\<lambda>e. t_path e = p \<and> status e = RUN) (queue w))"

definition replaceEntry :: "TransactionEntry \<Rightarrow> world \<Rightarrow> world" where
  "replaceEntry e w = w\<lparr>queue := map (\<lambda>x. if order x = order e then e else x) (queue w)\<rparr>"

subsection \<open>Result Delivery\<close>

text \<open>
  Modelled from the spec: Result Delivery invokes the completion callback of the entry:
  with the error for a failure, and otherwise with no error, the commit flag and the
  final value. An index outside the list of Deferreds leaves the list as it is.
\<close>

fun callbackArgs :: "outcome \<Rightarrow> js_error option \<times> bool \<times> val option" where
  "callbackArgs (Committed v) = (None, True, Some v)"
| "callbackArgs (Aborted c v) = (None, False, Some v)"
| "callbackArgs (Failed e) = (Some e, False, None)"

fun resultDelivery :: "callback \<Rightarrow> outcome \<Rightarrow> world \<Rightarrow> world" where
  "resultDelivery (PromiseComplete d ref) out w =
     (case callbackArgs out of
        (error, committed', node) \<Rightarrow>
          w\<lparr>deferreds :=
              (deferreds w)[d := promiseComplete ref error committed' node (deferreds w ! d)]\<rparr>)"

text \<open>
  Modelled from the spec: \<^verbatim>\<open>markCompleted(entry, result)\<close>: the pending write of the entry
  is removed, the entry is dequeued and its outcome is delivered.
\<close>

definition markCompleted :: "TransactionEntry \<Rightarrow> outcome \<Rightarrow> world \<Rightarrow> world" where
  "markCompleted e out w =
     (let w1 = removeWriteOf e w;
          w2 = w1\<lparr>queue := filter (\<lambda>x. order x \<noteq> order e) (queue w1),
                  delivered := delivered w1 @ [(order e, out)]\<rparr>
      in resultDelivery (onComplete e) out w2)"

subsection \<open>Transaction Runner\<close>

text \<open>
  Modelled from the spec: \<^verbatim>\<open>markSent(entry)\<close> for the value \<open>v\<close> that the update
  function returned: a pending write is registered when \<open>applyLocally\<close> holds, the entry
  becomes SENT, and the conditional write of \<open>v\<close> is submitted under the precondition.
\<close>

definition markSent :: "TransactionEntry \<Rightarrow> val \<Rightarrow> val \<Rightarrow> world \<Rightarrow> world" where
  "markSent e v pre w =
     (let (wid, w1) =
            (if t_applyLocally e
             then (case addWrite (t_path e) v w of (i, w') \<Rightarrow> (Some i, w'))
             else (None, w));
          e2 = e\<lparr>status := SENT, currentOutputValue := Some v, currentWriteId := wid\<rparr>
      in (replaceEntry e2 w1)
           \<lparr>submitted := submitted w1 @
              [\<lparr>cw_order = order e, cw_path = t_path e, cw_value = v,
                cw_precondition = pre\<rparr>]\<rparr>)"

text \<open>
  Modelled from the spec: step 2 of the Runner's state machine, for the head sendable
  entry of a path. The first attempt reads the overlayed value; a retry takes the
  authoritative value that the rejection carried. A defined value is sent under the
  precondition of the server value that produced the input; \<^verbatim>\<open>undefined\<close> and an
  exception complete the entry.
\<close>

definition attempt :: "path \<Rightarrow> world \<Rightarrow> world" where
  "attempt p w =
     (case nextSendable p w of
        None \<Rightarrow> w
      | Some e \<Rightarrow>
          (let input = (if attempts e = 0 then overlayedValue w p else currentInputSnapshot e);
               pre = (if attempts e = 0 then getAt p (serverValue w) else currentInputSnapshot e);
               e1 = e\<lparr>currentInputSnapshot := input, attempts := Suc (attempts e)\<rparr>
           in case updateFn e input of
                Return v \<Rightarrow> markSent e1 v pre w
              | ReturnUndefined \<Rightarrow> markCompleted e1 (Aborted None input) w
              | Throw err \<Rightarrow> markCompleted e1 (Failed err) w))"

text \<open>
  Modelled from the spec: step 3, the server's verdict for the SENT entry of a path:
  accept, reject with the authoritative value (back to RUN), or a hard error.
\<close>

datatype verdict = Accept | Conflict val | HardError js_error

definition serverVerdict :: "path \<Rightarrow> verdict \<Rightarrow> world \<Rightarrow> world" where
  "serverVerdict p v w =
     (case find (\<lambda>e. t_path e = p \<and> status e = SENT) (queue w) of
        None \<Rightarrow> w
      | Some e \<Rightarrow>
          (case v of
             Accept \<Rightarrow>
               (case currentOutputValue e of
                  None \<Rightarrow> w
                | Some x \<Rightarrow>
                    markCompleted e (Committed x) (w\<lparr>serverValue := setAt p x (serverValue w)\<rparr>))
           | Conflict a \<Rightarrow>
               replaceEntry
                 (e\<lparr>status := RUN, currentInputSnapshot := a, currentWriteId := None\<rparr>)
                 (removeWriteOf e w)
           | HardError err \<Rightarrow> markCompleted e (Failed err) w))"

text \<open>
  Modelled from the spec: \<^verbatim>\<open>abortAllDescendants(path)\<close>, run by \<^verbatim>\<open>notifyOverwrite(path)\<close>:
  every queued entry at the path, above it or below it completes as aborted with
  SET_RAW_VALUE_ERROR (write canceled) and the value at abort time.
\<close>

fun pathContains :: "path \<Rightarrow> path \<Rightarrow> bool" where
  "pathContains [] q = True"
| "pathContains (x # xs) [] = False"
| "pathContains (x # xs) (y # ys) = (x = y \<and> pathContains xs ys)"

definition overlapping :: "path \<Rightarrow> path \<Rightarrow> bool" where
  "overlapping p q = (pathContains p q \<or> pathContains q p)"

definition abortTransaction :: "TransactionEntry \<Rightarrow> world \<Rightarrow> world" where
  "abortTransaction e w =
     markCompleted e
       (Aborted (Some SET_RAW_VALUE_ERROR) (overlayedValue (removeWriteOf e w) (t_path e))) w"

fun abortAll :: "TransactionEntry list \<Rightarrow> world \<Rightarrow> world" where
  "abortAll [] w = w"
| "abortAll (e # es) w = abortAll es (abortTransaction e w)"

definition abortAllDescendants :: "path \<Rightarrow> world \<Rightarrow> world" where
  "abortAllDescendants p w = abortAll (filter (\<lambda>e. overlapping p (t_path e)) (queue w)) w"

subsection \<open>Executions\<close>

text \<open>
  Modelled from the spec: what can happen to the client, one event at a time (the
  interfaces of section 6 and the scheduling model of section 5). A caller invokes
  \<^verbatim>\<open>runTransaction\<close> (with \<open>subscribe\<close> and \<open>enqueueTransaction\<close>), the Runner
  attempts the head sendable entry of a path, the server's verdict for a path arrives, the
  sync engine notifies of an overwrite, or the server pushes a new value. An execution is
  any list of events, run from the initial state.
\<close>

datatype event =
    CallRunTransaction reference "val \<Rightarrow> update_result" "TransactionOptions option"
  | Attempt path
  | ServerVerdict path verdict
  | NotifyOverwrite path
  | ServerPush path val

fun step :: "(string \<Rightarrow> path \<Rightarrow> thrown option) \<Rightarrow> world \<Rightarrow> event \<Rightarrow> world" where
  "step validateWritablePath w (CallRunTransaction ref u opts) =
     snd (runTransaction validateWritablePath subscribe enqueueTransaction ref u opts w)"
| "step validateWritablePath w (Attempt p) = attempt p w"
| "step validateWritablePath w (ServerVerdict p v) = serverVerdict p v w"
| "step validateWritablePath w (NotifyOverwrite p) = abortAllDescendants p w"
| "step validateWritablePath w (ServerPush p v) = w\<lparr>serverValue := setAt p v (serverValue w)\<rparr>"

definition execution :: "(string \<Rightarrow> path \<Rightarrow> thrown option) \<Rightarrow> val \<Rightarrow> event list \<Rightarrow> world" where
  "execution validateWritablePath sv evs = foldl (step validateWritablePath) (initial sv) evs"

subsection \<open>Invariants of the executions\<close>

text \<open>
  The queue: orders are distinct and below the next order, every queued entry is RUN or
  SENT, and two entries for one path are never both SENT.
\<close>

definition queueInv :: "world \<Rightarrow> bool" where
  "queueInv w =
     (distinct (map order (queue w))
      \<and> (\<forall>e\<in>set (queue w). order e < nextOrder w \<and> (status e = RUN \<or> status e = SENT))
      \<and> (\<forall>a\<in>set (queue w). \<forall>b\<in>set (queue w).
            status a = SENT \<longrightarrow> t_path b = t_path a \<longrightarrow> order b \<noteq> order a \<longrightarrow> status b \<noteq> SENT))"

text \<open>
  The logs: a conditional write was submitted by a transaction that has made an attempt,
  and an outcome was delivered for a transaction that is no longer queued.
\<close>

definition logInv :: "world \<Rightarrow> bool" where
  "logInv w =
     ((\<forall>cw\<in>set (submitted w). cw_order cw < nextOrder w
          \<and> (\<forall>e\<in>set (queue w). order e = cw_order cw \<longrightarrow> 0 < attempts e))
      \<and> (\<forall>x\<in>set (delivered w). fst x < nextOrder w \<and> (\<forall>e\<in>set (queue w). order e \<noteq> fst x)))"

text \<open>
  The order \<open>n\<close> was given out and is not in the queue; from \<open>w\<close> to \<open>w'\<close> what was
  submitted and delivered for \<open>n\<close> is the same.
\<close>

definition dequeued :: "nat \<Rightarrow> world \<Rightarrow> bool" where
  "dequeued n w = (n < nextOrder w \<and> (\<forall>e\<in>set (queue w). order e \<noteq> n))"

definition unchangedFor :: "nat \<Rightarrow> world \<Rightarrow> world \<Rightarrow> bool" where
  "unchangedFor n w w' =
     (dequeued n w'
      \<and> filter (\<lambda>cw. cw_order cw = n) (submitted w') = filter (\<lambda>cw. cw_order cw = n) (submitted w)
      \<and> filter (\<lambda>x. fst x = n) (delivered w') = filter (\<lambda>x. fst x = n) (delivered w))"

text \<open>
  The completion callback of an entry: the index of its Deferred, which is the promise
  that \<^verbatim>\<open>runTransaction\<close> returned for it, and its \<open>ref\<close>.
\<close>

fun cbIndex :: "callback \<Rightarrow> nat" where
  "cbIndex (PromiseComplete d ref) = d"

fun cbRef :: "callback \<Rightarrow> reference" where
  "cbRef (PromiseComplete d ref) = ref"

text \<open>
  The callbacks: the queued entries have different Deferreds, each of them created and
  still pending, and the \<open>ref\<close> of the callback is at the path of the entry.
\<close>

definition callbackInv :: "world \<Rightarrow> bool" where
  "callbackInv w =
     (distinct (map (\<lambda>e. cbIndex (onComplete e)) (queue w))
      \<and> (\<forall>e\<in>set (queue w).
            cbIndex (onComplete e) < length (deferreds w)
            \<and> promise (deferreds w ! cbIndex (onComplete e)) = Pending
            \<and> ref_path (cbRef (onComplete e)) = t_path e))"

text \<open>The promise of the Deferred \<open>d\<close> exists and is in the state \<open>s\<close>.\<close>

definition settledAs :: "nat \<Rightarrow> promise_state \<Rightarrow> world \<Rightarrow> bool" where
  "settledAs d s w = (d < length (deferreds w) \<and> promise (deferreds w ! d) = s)"

subsection \<open>Sample inputs\<close>

text \<open>
  A validator that rejects, with an Error object, the paths under \<^verbatim>\<open>/.info\<close> and accepts
  every other path; an update function that adds one to a number and writes 1 over
  anything else; and one that never writes.
\<close>

definition underInfo :: "string \<Rightarrow> path \<Rightarrow> thrown option" where
  "underInfo fnName p =
     (case p of
        [] \<Rightarrow> None
      | k # ks \<Rightarrow>
          if k = ''.info''
          then Some (ThrownError (Error (fnName @ '' failed: the path is under /.info'')))
          else None)"

definition increment :: "val \<Rightarrow> update_result" where
  "increment v = (case v of Num n \<Rightarrow> Return (Num (n + 1)) | _ \<Rightarrow> Return (Num 1))"

definition noWrite :: "val \<Rightarrow> update_result" where
  "noWrite v = ReturnUndefined"

text \<open>The reference \<^verbatim>\<open>/counter\<close> and a tree in which it holds 5.\<close>

definition counterRef :: reference where
  "counterRef = \<lparr>ref_repo = 0, ref_path = [''counter'']\<rparr>"

definition counterTree :: val where
  "counterTree = Obj [(''counter'', Num 5)]"

section \<open>Properties of promiseComplete\<close>

lemma promiseComplete_settled:
  "promise d \<noteq> Pending \<Longrightarrow> promise (promiseComplete ref e c n d) = promise d"
  by (cases "promise d")
    (auto simp: promiseComplete_def resolve_def reject_def Let_def split: option.splits)

lemma promiseComplete_calls:
  "calls (promiseComplete ref e c n d) =
     calls d @
     [case e of
        Some x \<Rightarrow> CallReject x
      | None \<Rightarrow>
          CallResolve
            \<lparr>committed = c,
             snapshot = \<lparr>snap_node = n, snap_ref = ReferenceImpl (ref_repo ref) (ref_path ref),
                         snap_index = PRIORITY_INDEX\<rparr>\<rparr>]"
  by (simp add: promiseComplete_def resolve_def reject_def Let_def split: option.splits)

lemma promiseComplete_settles:
  "promise (promiseComplete ref e c n new_Deferred) \<noteq> Pending"
  by (simp add: promiseComplete_def resolve_def reject_def new_Deferred_def Let_def
      split: option.splits)

lemma invokeAll_settled:
  "promise d \<noteq> Pending \<Longrightarrow> promise (invokeAll ref args d) = promise d"
  unfolding invokeAll_def
  by (induction args arbitrary: d) (auto simp: promiseComplete_settled)

lemma invokeAll_length:
  "length (calls (invokeAll ref args d)) = length (calls d) + length args"
  unfolding invokeAll_def
  by (induction args arbitrary: d) (auto simp: promiseComplete_calls)

text \<open>
  C2. The promise of a call of \<^verbatim>\<open>runTransaction\<close> that passed validation is the promise of
  a fresh Deferred. However often the completion callback is invoked, the promise is
  settled by the first invocation alone (it is what that invocation made it, and pending
  if there was none); every invocation makes exactly one call of \<^verbatim>\<open>deferred.reject\<close> or
  \<^verbatim>\<open>deferred.resolve\<close>, so there are as many calls as invocations.
\<close>

theorem promiseComplete_settles_once:
  "promise (invokeAll ref args new_Deferred) =
     (case args of
        [] \<Rightarrow> Pending
      | (error, committed', node) # rest \<Rightarrow>
          promise (promiseComplete ref error committed' node new_Deferred))
   \<and> length (calls (invokeAll ref args new_Deferred)) = length args
   \<and> (\<exists>call. calls (promiseComplete ref error committed' node d) = calls d @ [call])"
proof (intro conjI)
  show "promise (invokeAll ref args new_Deferred) =
     (case args of
        [] \<Rightarrow> Pending
      | (error, committed', node) # rest \<Rightarrow>
          promise (promiseComplete ref error committed' node new_Deferred))"
  proof (cases args)
    case Nil
    then show ?thesis by (simp add: invokeAll_def new_Deferred_def)
  next
    case (Cons a rest)
    obtain e c n where a: "a = (e, c, n)" by (cases a)
    have "invokeAll ref args new_Deferred =
            invokeAll ref rest (promiseComplete ref e c n new_Deferred)"
      by (simp add: Cons a invokeAll_def)
    then show ?thesis
      by (simp add: Cons a invokeAll_settled promiseComplete_settles)
  qed
  show "length (calls (invokeAll ref args new_Deferred)) = length args"
    by (simp add: invokeAll_length new_Deferred_def)
  show "\<exists>call. calls (promiseComplete ref error committed' node d) = calls d @ [call]"
    by (simp add: promiseComplete_calls)
qed

text \<open>
  C5. The Deferred of a call of \<^verbatim>\<open>runTransaction\<close> is reached only through its
  \<^verbatim>\<open>promiseComplete\<close>, so the first completion finds it as it was created. Completing with
  an error \<open>e\<close> (not null) rejects that promise with exactly \<open>e\<close>; the only call made on the
  Deferred, whatever its state, is \<^verbatim>\<open>reject(e)\<close>: no TransactionResult is built and
  \<^verbatim>\<open>resolve\<close> is not called.
\<close>

theorem promiseComplete_error_rejects:
  "promiseComplete ref (Some e) c n new_Deferred = \<lparr>promise = Rejected e, calls = [CallReject e]\<rparr>
   \<and> calls (promiseComplete ref (Some e) c n d) = calls d @ [CallReject e]"
  by (simp add: promiseComplete_def reject_def new_Deferred_def)

text \<open>
  C6. Completing as aborted (no error, \<open>committed = false\<close>) fulfils the fresh promise, and
  does not reject it, with a TransactionResult whose \<open>committed\<close> is false and whose
  snapshot holds the node passed in, at a reference to the repo and path of \<open>ref\<close>.
\<close>

theorem promiseComplete_aborted_resolves:
  "promiseComplete ref None False n new_Deferred =
     \<lparr>promise =
        Fulfilled
          \<lparr>committed = False,
           snapshot = \<lparr>snap_node = n, snap_ref = ReferenceImpl (ref_repo ref) (ref_path ref),
                       snap_index = PRIORITY_INDEX\<rparr>\<rparr>,
      calls =
        [CallResolve
           \<lparr>committed = False,
            snapshot = \<lparr>snap_node = n, snap_ref = ReferenceImpl (ref_repo ref) (ref_path ref),
                        snap_index = PRIORITY_INDEX\<rparr>\<rparr>]\<rparr>"
  by (simp add: promiseComplete_def resolve_def new_Deferred_def Let_def)

section \<open>Properties of runTransaction\<close>

lemma runTransaction_valid:
  assumes "validateWritablePath ''Reference.transaction'' (ref_path ref) = None"
    and "key ref \<noteq> Some ''.length''" and "key ref \<noteq> Some ''.keys''"
    and "onValue ref (snd (newDeferred w)) = (Inr uw, wo)"
  shows "runTransaction validateWritablePath onValue repoStartTransaction ref transactionUpdate
           options w =
     promiseUnlessThrown (length (deferreds w))
       (repoStartTransaction
          \<lparr>sc_repo = ref_repo ref, sc_path = ref_path ref,
           sc_transactionUpdate = transactionUpdate,
           sc_onComplete = PromiseComplete (length (deferreds w)) ref,
           sc_unwatcher = uw,
           sc_applyLocally =
             (case options of
                None \<Rightarrow> True
              | Some opts \<Rightarrow> (case applyLocally opts of None \<Rightarrow> True | Some b \<Rightarrow> b))\<rparr>
          wo)"
proof -
  let ?c = "\<lparr>sc_repo = ref_repo ref, sc_path = ref_path ref,
           sc_transactionUpdate = transactionUpdate,
           sc_onComplete = PromiseComplete (length (deferreds w)) ref,
           sc_unwatcher = uw,
           sc_applyLocally =
             (case options of
                None \<Rightarrow> True
              | Some opts \<Rightarrow> (case applyLocally opts of None \<Rightarrow> True | Some b \<Rightarrow> b))\<rparr>"
  obtain r w3 where r: "repoStartTransaction ?c wo = (r, w3)" by (cases "repoStartTransaction ?c wo")
  show ?thesis
    using assms r by (cases r) (simp_all add: runTransaction_def newDeferred_def Let_def)
qed

text \<open>
  C3. When \<^verbatim>\<open>validateWritablePath\<close> rejects the path, or the key is \<^verbatim>\<open>.length\<close> or
  \<^verbatim>\<open>.keys\<close>, \<^verbatim>\<open>runTransaction\<close> throws, and the state at the throw is the state it was
  called in: no Deferred has been created, and, whatever \<^verbatim>\<open>onValue\<close> and
  \<^verbatim>\<open>repoStartTransaction\<close> do, they have not been applied.
\<close>

theorem runTransaction_invalid_not_queued:
  "validateWritablePath ''Reference.transaction'' (ref_path ref) \<noteq> None
     \<or> key ref = Some ''.length'' \<or> key ref = Some ''.keys'' \<Longrightarrow>
   \<exists>t. runTransaction validateWritablePath onValue repoStartTransaction ref transactionUpdate
         options w = (Inl t, w)"
  by (auto simp: runTransaction_def split: option.splits)

theorem runTransaction_invalid_not_queued_witness:
  "underInfo ''Reference.transaction'' [''.info'', ''connected''] \<noteq> None
   \<and> (\<exists>t. runTransaction underInfo subscribe enqueueTransaction
             \<lparr>ref_repo = 0, ref_path = [''.info'', ''connected'']\<rparr>
             increment None (initial Null) = (Inl t, initial Null))
   \<and> key \<lparr>ref_repo = 0, ref_path = [''users'', ''.keys'']\<rparr> = Some ''.keys''
   \<and> (\<exists>t. runTransaction underInfo subscribe enqueueTransaction
             \<lparr>ref_repo = 0, ref_path = [''users'', ''.keys'']\<rparr>
             increment None (initial Null) = (Inl t, initial Null))"
  using
    runTransaction_invalid_not_queued
      [where validateWritablePath = underInfo
         and ref = "\<lparr>ref_repo = 0, ref_path = [''.info'', ''connected'']\<rparr>"
         and onValue = subscribe and repoStartTransaction = enqueueTransaction
         and transactionUpdate = increment and options = None and w = "initial Null"]
    runTransaction_invalid_not_queued
      [where validateWritablePath = underInfo
         and ref = "\<lparr>ref_repo = 0, ref_path = [''users'', ''.keys'']\<rparr>"
         and onValue = subscribe and repoStartTransaction = enqueueTransaction
         and transactionUpdate = increment and options = None and w = "initial Null"]
  by (simp add: underInfo_def key_def)

text \<open>
  C4, as stated, fails: with a validator that accepts the path, the transaction on
  \<^verbatim>\<open>/.length/a\<close>, whose ancestor is a reserved meta-key, is queued and a promise is returned.
\<close>

theorem runTransaction_reserved_ancestor_queued:
  "reservedAncestor [''.length'', ''a'']
   \<and> fst (runTransaction underInfo subscribe enqueueTransaction
            \<lparr>ref_repo = 0, ref_path = [''.length'', ''a'']\<rparr>
            increment None (initial Null)) = Inr 0
   \<and> map t_path (queue (snd (runTransaction underInfo subscribe enqueueTransaction
            \<lparr>ref_repo = 0, ref_path = [''.length'', ''a'']\<rparr> increment None (initial Null)))) =
       [[''.length'', ''a'']]"
  by (simp add: reservedAncestor_def reservedKey_def runTransaction_def underInfo_def key_def
      newDeferred_def subscribe_def enqueueTransaction_def enqueue_def initial_def Let_def)

text \<open>
  C4, amended. For a ref whose path has a reserved meta-key among its strict ancestors
  and whose path \<^verbatim>\<open>validateWritablePath\<close> rejects, or whose own key is \<^verbatim>\<open>.length\<close> or
  \<^verbatim>\<open>.keys\<close>, \<^verbatim>\<open>runTransaction\<close> throws without queuing, as it does for any ref with such a
  key: the state at the throw is the state it was called in.
\<close>

theorem runTransaction_reserved_ancestor:
  assumes "reservedAncestor (ref_path ref)"
    and "validateWritablePath ''Reference.transaction'' (ref_path ref) \<noteq> None
           \<or> key ref = Some ''.length'' \<or> key ref = Some ''.keys''"
  shows "\<exists>t. runTransaction validateWritablePath onValue repoStartTransaction ref transactionUpdate
               options w = (Inl t, w)"
  using assms(2) by (auto simp: runTransaction_def split: option.splits)

theorem runTransaction_reserved_ancestor_witness:
  "reservedAncestor [''.length'', ''.keys'']
   \<and> key \<lparr>ref_repo = 0, ref_path = [''.length'', ''.keys'']\<rparr> = Some ''.keys''
   \<and> (\<exists>t. runTransaction underInfo subscribe enqueueTransaction
             \<lparr>ref_repo = 0, ref_path = [''.length'', ''.keys'']\<rparr>
             increment None (initial Null) = (Inl t, initial Null))
   \<and> reservedAncestor [''.info'', ''.length'', ''a'']
   \<and> underInfo ''Reference.transaction'' [''.info'', ''.length'', ''a''] \<noteq> None
   \<and> (\<exists>t. runTransaction underInfo subscribe enqueueTransaction
             \<lparr>ref_repo = 0, ref_path = [''.info'', ''.length'', ''a'']\<rparr>
             increment None (initial Null) = (Inl t, initial Null))"
  using
    runTransaction_reserved_ancestor
      [where validateWritablePath = underInfo
         and ref = "\<lparr>ref_repo = 0, ref_path = [''.length'', ''.keys'']\<rparr>"
         and onValue = subscribe and repoStartTransaction = enqueueTransaction
         and transactionUpdate = increment and options = None and w = "initial Null"]
    runTransaction_reserved_ancestor
      [where validateWritablePath = underInfo
         and ref = "\<lparr>ref_repo = 0, ref_path = [''.info'', ''.length'', ''a'']\<rparr>"
         and onValue = subscribe and repoStartTransaction = enqueueTransaction
         and transactionUpdate = increment and options = None and w = "initial Null"]
  by (simp add: reservedAncestor_def reservedKey_def underInfo_def key_def)

text \<open>
  C9. A transaction is started by the calls that pass validation and whose \<^verbatim>\<open>onValue\<close>
  returns. In such a call, \<^verbatim>\<open>repoStartTransaction\<close>, whatever it is and whether or not it
  then throws, is applied to arguments whose \<open>applyLocally\<close> is true when the options are
  omitted, true when their \<open>applyLocally\<close> is undefined, and the given value \<open>b\<close> when it
  is given.
\<close>

theorem runTransaction_applyLocally_default:
  assumes "validateWritablePath ''Reference.transaction'' (ref_path ref) = None"
    and "key ref \<noteq> Some ''.length''" and "key ref \<noteq> Some ''.keys''"
    and "onValue ref (snd (newDeferred w)) = (Inr uw, wo)"
  shows "(\<exists>c. sc_applyLocally c = True \<and>
            (\<forall>repoStartTransaction.
               runTransaction validateWritablePath onValue repoStartTransaction ref
                 transactionUpdate None w =
               promiseUnlessThrown (length (deferreds w)) (repoStartTransaction c wo)))
       \<and> (\<exists>c. sc_applyLocally c = True \<and>
            (\<forall>repoStartTransaction.
               runTransaction validateWritablePath onValue repoStartTransaction ref
                 transactionUpdate (Some \<lparr>applyLocally = None\<rparr>) w =
               promiseUnlessThrown (length (deferreds w)) (repoStartTransaction c wo)))
       \<and> (\<exists>c. sc_applyLocally c = b \<and>
            (\<forall>repoStartTransaction.
               runTransaction validateWritablePath onValue repoStartTransaction ref
                 transactionUpdate (Some \<lparr>applyLocally = Some b\<rparr>) w =
               promiseUnlessThrown (length (deferreds w)) (repoStartTransaction c wo)))"
proof -
  have started:
    "\<exists>c. sc_applyLocally c = a \<and>
       (\<forall>repoStartTransaction.
          runTransaction validateWritablePath onValue repoStartTransaction ref transactionUpdate
            opts w =
          promiseUnlessThrown (length (deferreds w)) (repoStartTransaction c wo))"
    if "(case opts of
           None \<Rightarrow> True
         | Some x \<Rightarrow> (case applyLocally x of None \<Rightarrow> True | Some b \<Rightarrow> b)) = a" for opts a
  proof (intro exI conjI allI)
    fix repoStartTransaction
    show "runTransaction validateWritablePath onValue repoStartTransaction ref transactionUpdate
            opts w =
       promiseUnlessThrown (length (deferreds w))
        (repoStartTransaction
          \<lparr>sc_repo = ref_repo ref, sc_path = ref_path ref,
           sc_transactionUpdate = transactionUpdate,
           sc_onComplete = PromiseComplete (length (deferreds w)) ref,
           sc_unwatcher = uw, sc_applyLocally = a\<rparr>
          wo)"
      using assms that
        runTransaction_valid[where validateWritablePath = validateWritablePath and onValue = onValue
          and ref = ref and w = w and uw = uw and wo = wo
          and repoStartTransaction = repoStartTransaction and transactionUpdate = transactionUpdate
          and options = opts]
      by simp
  qed simp
  show ?thesis
    by (intro conjI started) simp_all
qed

theorem runTransaction_applyLocally_default_witness:
  "underInfo ''Reference.transaction'' [''counter''] = None
   \<and> key \<lparr>ref_repo = 0, ref_path = [''counter'']\<rparr> = Some ''counter''
   \<and> subscribe \<lparr>ref_repo = 0, ref_path = [''counter'']\<rparr> (snd (newDeferred (initial Null))) =
       (Inr 0, (initial Null)\<lparr>deferreds := [new_Deferred],
                               watches := [\<lparr>ref_repo = 0, ref_path = [''counter'']\<rparr>]\<rparr>)
   \<and> (\<exists>c. sc_applyLocally c = False \<and>
         (\<forall>repoStartTransaction.
            runTransaction underInfo subscribe repoStartTransaction
              \<lparr>ref_repo = 0, ref_path = [''counter'']\<rparr>
              increment (Some \<lparr>applyLocally = Some False\<rparr>) (initial Null) =
            promiseUnlessThrown 0
              (repoStartTransaction c
                 ((initial Null)\<lparr>deferreds := [new_Deferred],
                                 watches := [\<lparr>ref_repo = 0, ref_path = [''counter'']\<rparr>]\<rparr>))))"
  using
    runTransaction_applyLocally_default
      [where validateWritablePath = underInfo and onValue = subscribe
         and ref = "\<lparr>ref_repo = 0, ref_path = [''counter'']\<rparr>" and b = False
         and transactionUpdate = increment and w = "initial Null" and uw = 0
         and wo = "(initial Null)\<lparr>deferreds := [new_Deferred],
                               watches := [\<lparr>ref_repo = 0, ref_path = [''counter'']\<rparr>]\<rparr>"]
  by (simp add: underInfo_def key_def subscribe_def newDeferred_def initial_def)

text \<open>
  C10, as stated, fails: \<^verbatim>\<open>validateWritablePath\<close> runs before the test of the key. For the
  ref \<^verbatim>\<open>/.info/.length\<close>, whose key is \<^verbatim>\<open>.length\<close>, and a validator that rejects the paths
  under \<^verbatim>\<open>/.info\<close> with an Error object, what \<^verbatim>\<open>runTransaction\<close> throws is that Error
  object, not a string.
\<close>

theorem runTransaction_unwritable_reserved_key:
  "key \<lparr>ref_repo = 0, ref_path = [''.info'', ''.length'']\<rparr> = Some ''.length''
   \<and> runTransaction underInfo subscribe enqueueTransaction
        \<lparr>ref_repo = 0, ref_path = [''.info'', ''.length'']\<rparr>
        increment None (initial Null) =
       (Inl (ThrownError (Error ''Reference.transaction failed: the path is under /.info'')),
        initial Null)
   \<and> isErrorInstance
        (ThrownError (Error ''Reference.transaction failed: the path is under /.info''))"
  by (simp add: runTransaction_def underInfo_def key_def)

text \<open>
  C10, amended. When the key \<open>k\<close> of the ref is \<^verbatim>\<open>.length\<close> or \<^verbatim>\<open>.keys\<close>, \<^verbatim>\<open>runTransaction\<close>
  throws: what \<^verbatim>\<open>validateWritablePath\<close> throws when it rejects the path, and otherwise the
  plain string \<^verbatim>\<open>Reference.transaction failed: k is a read-only object.\<close>, which is not
  an Error instance.
\<close>

theorem runTransaction_reserved_key_throws_string:
  assumes "key ref = Some k" and "k = ''.length'' \<or> k = ''.keys''"
  shows "runTransaction validateWritablePath onValue repoStartTransaction ref transactionUpdate
           options w =
           (Inl (case validateWritablePath ''Reference.transaction'' (ref_path ref) of
                   Some t \<Rightarrow> t
                 | None \<Rightarrow>
                     ThrownString
                       (''Reference.transaction failed: '' @ k @ '' is a read-only object.'')),
            w)
         \<and> \<not> isErrorInstance
               (ThrownString
                  (''Reference.transaction failed: '' @ k @ '' is a read-only object.''))"
  using assms by (auto simp: runTransaction_def split: option.splits)

theorem runTransaction_reserved_key_throws_string_witness:
  "underInfo ''Reference.transaction'' [''users'', ''.keys''] = None
   \<and> key \<lparr>ref_repo = 0, ref_path = [''users'', ''.keys'']\<rparr> = Some ''.keys''
   \<and> runTransaction underInfo subscribe enqueueTransaction
        \<lparr>ref_repo = 0, ref_path = [''users'', ''.keys'']\<rparr>
        increment None (initial Null) =
       (Inl (ThrownString ''Reference.transaction failed: .keys is a read-only object.''),
        initial Null)"
  using
    runTransaction_reserved_key_throws_string
      [where validateWritablePath = underInfo
         and ref = "\<lparr>ref_repo = 0, ref_path = [''users'', ''.keys'']\<rparr>" and k = "''.keys''"
         and onValue = subscribe and repoStartTransaction = enqueueTransaction
         and transactionUpdate = increment and options = None and w = "initial Null"]
  by (simp add: underInfo_def key_def)

section \<open>Properties of the sync session\<close>


lemma queueInvI:
  assumes "distinct (map order (queue w))"
    and "\<And>e. e \<in> set (queue w) \<Longrightarrow> order e < nextOrder w \<and> (status e = RUN \<or> status e = SENT)"
    and "\<And>a b. a \<in> set (queue w) \<Longrightarrow> b \<in> set (queue w) \<Longrightarrow> status a = SENT \<Longrightarrow>
           t_path b = t_path a \<Longrightarrow> order b \<noteq> order a \<Longrightarrow> status b \<noteq> SENT"
  shows "queueInv w"
  unfolding queueInv_def using assms by blast

lemma queueInvD:
  assumes "queueInv w"
  shows "distinct (map order (queue w))"
    and "\<And>e. e \<in> set (queue w) \<Longrightarrow> order e < nextOrder w"
    and "\<And>e. e \<in> set (queue w) \<Longrightarrow> status e = RUN \<or> status e = SENT"
    and "\<And>a b. a \<in> set (queue w) \<Longrightarrow> b \<in> set (queue w) \<Longrightarrow> status a = SENT \<Longrightarrow>
           t_path b = t_path a \<Longrightarrow> order b \<noteq> order a \<Longrightarrow> status b \<noteq> SENT"
  using assms unfolding queueInv_def by blast+

lemma resultDelivery_fields [simp]:
  "queue (resultDelivery cb out w) = queue w"
  "nextOrder (resultDelivery cb out w) = nextOrder w"
  "submitted (resultDelivery cb out w) = submitted w"
  "delivered (resultDelivery cb out w) = delivered w"
  "writes (resultDelivery cb out w) = writes w"
  "serverValue (resultDelivery cb out w) = serverValue w"
  by (cases cb; simp split: prod.splits)+

lemma removeWriteOf_fields [simp]:
  "queue (removeWriteOf e w) = queue w"
  "nextOrder (removeWriteOf e w) = nextOrder w"
  "submitted (removeWriteOf e w) = submitted w"
  "delivered (removeWriteOf e w) = delivered w"
  "deferreds (removeWriteOf e w) = deferreds w"
  "serverValue (removeWriteOf e w) = serverValue w"
  by (simp_all add: removeWriteOf_def removeWrite_def split: option.splits)

lemma markCompleted_fields [simp]:
  "queue (markCompleted e out w) = filter (\<lambda>x. order x \<noteq> order e) (queue w)"
  "nextOrder (markCompleted e out w) = nextOrder w"
  "submitted (markCompleted e out w) = submitted w"
  "delivered (markCompleted e out w) = delivered w @ [(order e, out)]"
  "writes (markCompleted e out w) = writes (removeWriteOf e w)"
  by (simp_all add: markCompleted_def Let_def)

lemma markCompleted_deferreds:
  "deferreds (markCompleted e out w) = deferreds (resultDelivery (onComplete e) out w)"
  by (cases "onComplete e") (simp add: markCompleted_def Let_def split: prod.splits)

lemma replaceEntry_fields [simp]:
  "queue (replaceEntry e w) = map (\<lambda>x. if order x = order e then e else x) (queue w)"
  "nextOrder (replaceEntry e w) = nextOrder w"
  "submitted (replaceEntry e w) = submitted w"
  "delivered (replaceEntry e w) = delivered w"
  "writes (replaceEntry e w) = writes w"
  by (simp_all add: replaceEntry_def)

lemma queueInv_filter:
  assumes inv: "queueInv w" and q: "queue w' = filter P (queue w)" and n: "nextOrder w' = nextOrder w"
  shows "queueInv w'"
proof (rule queueInvI)
  show "distinct (map order (queue w'))"
    unfolding q using queueInvD(1)[OF inv] by (rule distinct_map_filter)
  show "order e < nextOrder w' \<and> (status e = RUN \<or> status e = SENT)" if "e \<in> set (queue w')" for e
    using that queueInvD(2,3)[OF inv, of e] by (simp add: q n)
  show "status b \<noteq> SENT"
    if "a \<in> set (queue w')" "b \<in> set (queue w')" "status a = SENT" "t_path b = t_path a"
      "order b \<noteq> order a" for a b
    by (rule queueInvD(4)[OF inv, of a b]) (use that in \<open>simp_all add: q\<close>)
qed

lemma queueInv_markCompleted: "queueInv w \<Longrightarrow> queueInv (markCompleted e out w)"
  by (rule queueInv_filter[where P = "\<lambda>x. order x \<noteq> order e"]) simp_all

lemma nextSendable_Some:
  "nextSendable p w = Some e \<Longrightarrow>
     e \<in> set (queue w) \<and> t_path e = p \<and> status e = RUN
     \<and> (\<forall>x\<in>set (queue w). t_path x = p \<longrightarrow> status x \<noteq> SENT)"
  by (auto simp: nextSendable_def list_ex_iff find_Some_iff split: if_splits)

lemma queueInv_replace:
  assumes inv: "queueInv w" and e: "e \<in> set (queue w)"
    and blocked: "status e' = SENT \<Longrightarrow> \<forall>x\<in>set (queue w). t_path x = t_path e \<longrightarrow> order x \<noteq> order e \<longrightarrow> status x \<noteq> SENT"
    and ord: "order e' = order e" and pth: "t_path e' = t_path e"
    and st: "status e' = RUN \<or> status e' = SENT"
    and q: "queue w' = map (\<lambda>x. if order x = order e then e' else x) (queue w)"
    and n: "nextOrder w' = nextOrder w"
  shows "queueInv w'"
proof (rule queueInvI)
  have "map order (queue w') = map (\<lambda>x. order (if order x = order e then e' else x)) (queue w)"
    unfolding q by (simp add: comp_def)
  also have "\<dots> = map order (queue w)"
    by (rule map_cong) (simp_all add: ord)
  finally have ord_eq: "map order (queue w') = map order (queue w)" .
  show "distinct (map order (queue w'))"
    unfolding ord_eq by (rule queueInvD(1)[OF inv])
  have mem: "x = e' \<or> (x \<in> set (queue w) \<and> order x \<noteq> order e)" if "x \<in> set (queue w')" for x
  proof -
    from that obtain y where y: "y \<in> set (queue w)" and x: "x = (if order y = order e then e' else y)"
      unfolding q by auto
    then show ?thesis by (cases "order y = order e") simp_all
  qed
  show "order x < nextOrder w' \<and> (status x = RUN \<or> status x = SENT)" if "x \<in> set (queue w')" for x
  proof -
    from mem[OF that] show ?thesis
    proof
      assume "x = e'"
      then show ?thesis using queueInvD(2)[OF inv e] ord st n by simp
    next
      assume "x \<in> set (queue w) \<and> order x \<noteq> order e"
      then show ?thesis using queueInvD(2,3)[OF inv, of x] n by simp
    qed
  qed
  show "status b \<noteq> SENT"
    if a: "a \<in> set (queue w')" and b: "b \<in> set (queue w')" and sa: "status a = SENT"
      and p: "t_path b = t_path a" and ne: "order b \<noteq> order a" for a b
  proof -
    consider "a = e'" "b = e'" | "a = e'" "b \<in> set (queue w)" "order b \<noteq> order e"
      | "a \<in> set (queue w)" "order a \<noteq> order e" "b = e'"
      | "a \<in> set (queue w)" "b \<in> set (queue w)"
      using mem[OF a] mem[OF b] by blast
    then show ?thesis
    proof cases
      case 1
      with ne show ?thesis by simp
    next
      case 2
      with sa have "status e' = SENT" by simp
      from blocked[OF this] 2 p pth show ?thesis by simp
    next
      case 3
      show ?thesis
      proof
        assume "status b = SENT"
        with 3 have "status e' = SENT" by simp
        from blocked[OF this] 3 p pth sa show False by simp
      qed
    next
      case 4
      then show ?thesis using queueInvD(4)[OF inv, of a b] sa p ne by blast
    qed
  qed
qed

lemma markSent_fields [simp]:
  "queue (markSent e v pre w) =
     map (\<lambda>x. if order x = order e
               then e\<lparr>status := SENT, currentOutputValue := Some v,
                      currentWriteId := (if t_applyLocally e then Some (nextWriteId w) else None)\<rparr>
               else x) (queue w)"
  "nextOrder (markSent e v pre w) = nextOrder w"
  "submitted (markSent e v pre w) =
     submitted w @ [\<lparr>cw_order = order e, cw_path = t_path e, cw_value = v, cw_precondition = pre\<rparr>]"
  "delivered (markSent e v pre w) = delivered w"
  by (simp_all add: markSent_def addWrite_def replaceEntry_def Let_def)

lemma attempt_None: "nextSendable p w = None \<Longrightarrow> attempt p w = w"
  by (simp add: attempt_def)

lemma attempt_Some:
  assumes "nextSendable p w = Some e"
  shows "\<exists>e1. order e1 = order e \<and> t_path e1 = t_path e \<and> t_applyLocally e1 = t_applyLocally e
            \<and> currentWriteId e1 = currentWriteId e \<and> attempts e1 = Suc (attempts e)
            \<and> ((\<exists>v pre. attempt p w = markSent e1 v pre w)
               \<or> (\<exists>out. attempt p w = markCompleted e1 out w))"
proof -
  define input where "input = (if attempts e = 0 then overlayedValue w p else currentInputSnapshot e)"
  define pre where "pre = (if attempts e = 0 then getAt p (serverValue w) else currentInputSnapshot e)"
  define e1 where "e1 = e\<lparr>currentInputSnapshot := input, attempts := Suc (attempts e)\<rparr>"
  have eq: "attempt p w =
      (case updateFn e input of
         Return v \<Rightarrow> markSent e1 v pre w
       | ReturnUndefined \<Rightarrow> markCompleted e1 (Aborted None input) w
       | Throw err \<Rightarrow> markCompleted e1 (Failed err) w)"
    unfolding attempt_def input_def pre_def e1_def using assms by (simp add: Let_def)
  have "(\<exists>v pre. attempt p w = markSent e1 v pre w) \<or> (\<exists>out. attempt p w = markCompleted e1 out w)"
    unfolding eq by (cases "updateFn e input") auto
  moreover have "order e1 = order e \<and> t_path e1 = t_path e \<and> t_applyLocally e1 = t_applyLocally e
            \<and> currentWriteId e1 = currentWriteId e \<and> attempts e1 = Suc (attempts e)"
    by (simp add: e1_def)
  ultimately show ?thesis by blast
qed

lemma queueInv_attempt: "queueInv w \<Longrightarrow> queueInv (attempt p w)"
proof (cases "nextSendable p w")
  case None
  assume "queueInv w" then show ?thesis using None by (simp add: attempt_None)
next
  case (Some e)
  assume inv: "queueInv w"
  from nextSendable_Some[OF Some] have ns: "e \<in> set (queue w)" "t_path e = p" "status e = RUN"
    and nosent: "\<forall>x\<in>set (queue w). t_path x = t_path e \<longrightarrow> order x \<noteq> order e \<longrightarrow> status x \<noteq> SENT"
    by blast+
  from attempt_Some[OF Some] obtain e1 where e1: "order e1 = order e" "t_path e1 = t_path e"
    and cases: "(\<exists>v pre. attempt p w = markSent e1 v pre w) \<or> (\<exists>out. attempt p w = markCompleted e1 out w)"
    by blast
  from cases show ?thesis
  proof
    assume "\<exists>v pre. attempt p w = markSent e1 v pre w"
    then obtain v pre where eq: "attempt p w = markSent e1 v pre w" by blast
    show ?thesis
      unfolding eq
      by (rule queueInv_replace[OF inv, where e = e and e' = "e1\<lparr>status := SENT, currentOutputValue := Some v,
                      currentWriteId := (if t_applyLocally e1 then Some (nextWriteId w) else None)\<rparr>"])
         (use ns nosent e1 in simp_all)
  next
    assume "\<exists>out. attempt p w = markCompleted e1 out w"
    then show ?thesis using inv by (auto simp: queueInv_markCompleted)
  qed
qed

lemma find_SomeD: "find P xs = Some x \<Longrightarrow> x \<in> set xs \<and> P x"
  by (auto simp: find_Some_iff)

lemma queueInv_serverValue: "queueInv (w\<lparr>serverValue := x\<rparr>) = queueInv w"
  by (simp add: queueInv_def)

lemma queueInv_serverVerdict: "queueInv w \<Longrightarrow> queueInv (serverVerdict p v w)"
proof (cases "find (\<lambda>e. t_path e = p \<and> status e = SENT) (queue w)")
  case None
  assume "queueInv w" then show ?thesis using None by (simp add: serverVerdict_def)
next
  case (Some e)
  assume inv: "queueInv w"
  from find_SomeD[OF Some] have e: "e \<in> set (queue w)" by simp
  show ?thesis
  proof (cases v)
    case Accept
    then show ?thesis using Some inv
      by (simp add: serverVerdict_def queueInv_markCompleted queueInv_serverValue split: option.splits)
  next
    case (Conflict a)
    have eq: "serverVerdict p v w = replaceEntry (e\<lparr>status := RUN, currentInputSnapshot := a, currentWriteId := None\<rparr>) (removeWriteOf e w)"
      using Some Conflict by (simp add: serverVerdict_def)
    show ?thesis
      unfolding eq
      by (rule queueInv_replace[OF inv e, where e' = "e\<lparr>status := RUN, currentInputSnapshot := a, currentWriteId := None\<rparr>"])
        simp_all
  next
    case (HardError err)
    then show ?thesis using Some inv
      by (simp add: serverVerdict_def queueInv_markCompleted)
  qed
qed

lemma abortTransaction_fields [simp]:
  "queue (abortTransaction e w) = filter (\<lambda>x. order x \<noteq> order e) (queue w)"
  "nextOrder (abortTransaction e w) = nextOrder w"
  "submitted (abortTransaction e w) = submitted w"
  by (simp_all add: abortTransaction_def)

lemma abortAll_queue:
  "queue (abortAll es w) = filter (\<lambda>x. order x \<notin> order ` set es) (queue w)"
  by (induction es arbitrary: w) (auto intro: filter_cong)

lemma abortAll_fields [simp]:
  "nextOrder (abortAll es w) = nextOrder w"
  "submitted (abortAll es w) = submitted w"
  by (induction es arbitrary: w) auto

lemma queueInv_abortAllDescendants: "queueInv w \<Longrightarrow> queueInv (abortAllDescendants p w)"
  unfolding abortAllDescendants_def
  by (rule queueInv_filter[OF _ abortAll_queue]) simp_all

lemma enqueue_fields [simp]:
  "queue (enqueue c w) = queue w @
         [\<lparr>t_path = sc_path c, updateFn = sc_transactionUpdate c, order = nextOrder w,
           status = RUN, currentInputSnapshot = Null, currentOutputValue = None,
           t_applyLocally = sc_applyLocally c, onComplete = sc_onComplete c,
           unwatcher = sc_unwatcher c, currentWriteId = None, attempts = 0\<rparr>]"
  "nextOrder (enqueue c w) = Suc (nextOrder w)"
  "submitted (enqueue c w) = submitted w"
  "delivered (enqueue c w) = delivered w"
  by (simp_all add: enqueue_def)

lemma runTransaction_enqueue_full:
  "snd (runTransaction validateWritablePath subscribe enqueueTransaction ref u opts w) = w
   \<or> (\<exists>c w1. snd (runTransaction validateWritablePath subscribe enqueueTransaction ref u opts w) =
                enqueue c w1
        \<and> queue w1 = queue w \<and> nextOrder w1 = nextOrder w \<and> submitted w1 = submitted w
        \<and> delivered w1 = delivered w \<and> sc_path c = ref_path ref
        \<and> deferreds w1 = deferreds w @ [new_Deferred]
        \<and> sc_onComplete c = PromiseComplete (length (deferreds w)) ref)"
proof (cases "validateWritablePath ''Reference.transaction'' (ref_path ref) = None
              \<and> key ref \<noteq> Some ''.length'' \<and> key ref \<noteq> Some ''.keys''")
  case True
  let ?c = "\<lparr>sc_repo = ref_repo ref, sc_path = ref_path ref,
         sc_transactionUpdate = u,
         sc_onComplete = PromiseComplete (length (deferreds w)) ref,
         sc_unwatcher = length (watches w),
         sc_applyLocally =
           (case opts of
              None \<Rightarrow> True
            | Some opts \<Rightarrow> (case applyLocally opts of None \<Rightarrow> True | Some b \<Rightarrow> b))\<rparr>"
  let ?w1 = "w\<lparr>deferreds := deferreds w @ [new_Deferred], watches := watches w @ [ref]\<rparr>"
  have sub: "subscribe ref (snd (newDeferred w)) = (Inr (length (watches w)), ?w1)"
    by (simp add: subscribe_def newDeferred_def)
  have "snd (runTransaction validateWritablePath subscribe enqueueTransaction ref u opts w) =
          enqueue ?c ?w1"
    using True sub
      runTransaction_valid[where validateWritablePath = validateWritablePath and onValue = subscribe
        and ref = ref and w = w and uw = "length (watches w)" and wo = ?w1
        and repoStartTransaction = enqueueTransaction and transactionUpdate = u and options = opts]
    by (simp add: enqueueTransaction_def)
  moreover have "queue ?w1 = queue w \<and> nextOrder ?w1 = nextOrder w \<and> submitted ?w1 = submitted w
        \<and> delivered ?w1 = delivered w \<and> sc_path ?c = ref_path ref
        \<and> deferreds ?w1 = deferreds w @ [new_Deferred]
        \<and> sc_onComplete ?c = PromiseComplete (length (deferreds w)) ref"
    by simp
  ultimately show ?thesis by blast
next
  case False
  then have "snd (runTransaction validateWritablePath subscribe enqueueTransaction ref u opts w) = w"
    by (auto simp: runTransaction_def split: option.splits)
  then show ?thesis by simp
qed

lemma runTransaction_enqueue:
  "snd (runTransaction validateWritablePath subscribe enqueueTransaction ref u opts w) = w
   \<or> (\<exists>c w1. snd (runTransaction validateWritablePath subscribe enqueueTransaction ref u opts w) = enqueue c w1
        \<and> queue w1 = queue w \<and> nextOrder w1 = nextOrder w \<and> submitted w1 = submitted w
        \<and> delivered w1 = delivered w \<and> sc_path c = ref_path ref)"
  using runTransaction_enqueue_full[of validateWritablePath ref u opts w] by blast

lemma queueInv_enqueue:
  assumes inv: "queueInv w" and q: "queue w1 = queue w" and n: "nextOrder w1 = nextOrder w"
  shows "queueInv (enqueue c w1)"
proof (rule queueInvI)
  let ?new = "\<lparr>t_path = sc_path c, updateFn = sc_transactionUpdate c, order = nextOrder w1,
           status = RUN, currentInputSnapshot = Null, currentOutputValue = None,
           t_applyLocally = sc_applyLocally c, onComplete = sc_onComplete c,
           unwatcher = sc_unwatcher c, currentWriteId = None, attempts = 0\<rparr>"
  have qe: "queue (enqueue c w1) = queue w @ [?new]" by (simp add: q)
  have fresh: "nextOrder w \<notin> order ` set (queue w)"
    using queueInvD(2)[OF inv] by fastforce
  show "distinct (map order (queue (enqueue c w1)))"
    unfolding qe using queueInvD(1)[OF inv] fresh by (simp add: n)
  have mem: "x = ?new \<or> x \<in> set (queue w)" if "x \<in> set (queue (enqueue c w1))" for x
    using that unfolding qe by auto
  show "order x < nextOrder (enqueue c w1) \<and> (status x = RUN \<or> status x = SENT)"
    if "x \<in> set (queue (enqueue c w1))" for x
    using mem[OF that] queueInvD(2,3)[OF inv, of x] by (auto simp: n)
  show "status b \<noteq> SENT"
    if a: "a \<in> set (queue (enqueue c w1))" and b: "b \<in> set (queue (enqueue c w1))"
      and sa: "status a = SENT" and p: "t_path b = t_path a" and ne: "order b \<noteq> order a" for a b
  proof -
    from mem[OF a] sa have a': "a \<in> set (queue w)" by auto
    from mem[OF b] show ?thesis
    proof
      assume "b = ?new"
      then show ?thesis by simp
    next
      assume "b \<in> set (queue w)"
      then show ?thesis using queueInvD(4)[OF inv a'] sa p ne by blast
    qed
  qed
qed

lemma queueInv_step: "queueInv w \<Longrightarrow> queueInv (step validateWritablePath w ev)"
proof (cases ev)
  case (CallRunTransaction ref u opts)
  assume "queueInv w"
  then show ?thesis
    using runTransaction_enqueue[of validateWritablePath ref u opts w] CallRunTransaction
    by (auto simp: queueInv_enqueue)
qed (simp_all add: queueInv_attempt queueInv_serverVerdict queueInv_abortAllDescendants queueInv_serverValue)

lemma queueInv_initial: "queueInv (initial sv)"
  by (simp add: queueInv_def initial_def)

lemma queueInv_foldl: "queueInv w \<Longrightarrow> queueInv (foldl (step validateWritablePath) w evs)"
  by (induction evs arbitrary: w) (simp_all add: queueInv_step)

lemma queueInv_execution: "queueInv (execution validateWritablePath sv evs)"
  by (simp add: execution_def queueInv_foldl queueInv_initial)

lemma execution_append:
  "execution validateWritablePath sv (evs @ evs') =
     foldl (step validateWritablePath) (execution validateWritablePath sv evs) evs'"
  by (simp add: execution_def)

lemma at_most_one:
  assumes "distinct (map f xs)"
    and "\<And>a b. a \<in> set xs \<Longrightarrow> b \<in> set xs \<Longrightarrow> P a \<Longrightarrow> P b \<Longrightarrow> f a = f b"
  shows "length (filter P xs) \<le> Suc 0"
  using assms
proof (induction xs)
  case Nil
  then show ?case by simp
next
  case (Cons x xs)
  from Cons.prems(1) have d: "f x \<notin> f ` set xs" and dxs: "distinct (map f xs)" by simp_all
  have same: "f a = f b" if "a \<in> set xs" "b \<in> set xs" "P a" "P b" for a b
    by (rule Cons.prems(2)) (simp_all add: that)
  show ?case
  proof (cases "P x")
    case True
    have "\<not> P y" if "y \<in> set xs" for y
    proof
      assume "P y"
      have "f x = f y"
        by (rule Cons.prems(2)) (simp_all add: True that \<open>P y\<close>)
      with that d show False by blast
    qed
    then have "filter P xs = []" by (simp add: filter_empty_conv)
    with True show ?thesis by simp
  next
    case False
    have "length (filter P xs) \<le> Suc 0"
      by (rule Cons.IH[OF dxs]) (rule same)
    with False show ?thesis by simp
  qed
qed

lemmas eval_defs = execution_def initial_def runTransaction_def key_def newDeferred_def
  subscribe_def enqueueTransaction_def enqueue_def attempt_def nextSendable_def markSent_def addWrite_def replaceEntry_def
  overlayedValue_def markCompleted_def removeWriteOf_def removeWrite_def serverVerdict_def
  abortAllDescendants_def abortTransaction_def overlapping_def promiseComplete_def resolve_def
  reject_def new_Deferred_def ReferenceImpl_def Let_def

text \<open>
  C1. In every execution, at every point: for every path at most one queued entry is
  SENT; while an entry of a path is SENT every other queued entry of that path is RUN;
  and an attempt on that path then changes nothing, so that none of them is started.
\<close>

theorem queue_at_most_one_sent:
  "(\<forall>p. length (filter (\<lambda>e. t_path e = p \<and> status e = SENT)
                 (queue (execution validateWritablePath sv evs))) \<le> 1)
   \<and> (\<forall>a\<in>set (queue (execution validateWritablePath sv evs)).
        \<forall>b\<in>set (queue (execution validateWritablePath sv evs)).
          status a = SENT \<and> t_path b = t_path a \<and> b \<noteq> a \<longrightarrow> status b = RUN)
   \<and> (\<forall>a\<in>set (queue (execution validateWritablePath sv evs)).
        status a = SENT \<longrightarrow>
          execution validateWritablePath sv (evs @ [Attempt (t_path a)]) =
          execution validateWritablePath sv evs)"
proof -
  let ?w = "execution validateWritablePath sv evs"
  have inv: "queueInv ?w" by (rule queueInv_execution)
  note D = queueInvD[OF inv]
  have inj: "a = b" if "a \<in> set (queue ?w)" "b \<in> set (queue ?w)" "order a = order b" for a b
    using D(1) that by (auto simp: distinct_map inj_on_def)
  have one: "length (filter (\<lambda>e. t_path e = p \<and> status e = SENT) (queue ?w)) \<le> 1" for p
  proof -
    have "length (filter (\<lambda>e. t_path e = p \<and> status e = SENT) (queue ?w)) \<le> Suc 0"
    proof (rule at_most_one[where f = order, OF D(1)])
      fix a b
      assume ab: "a \<in> set (queue ?w)" "b \<in> set (queue ?w)"
        and "t_path a = p \<and> status a = SENT" and "t_path b = p \<and> status b = SENT"
      then have "\<not> order b \<noteq> order a" using D(4)[OF ab] by blast
      then show "order a = order b" by simp
    qed
    then show ?thesis by simp
  qed
  have others: "status b = RUN"
    if "a \<in> set (queue ?w)" "b \<in> set (queue ?w)" "status a = SENT" "t_path b = t_path a" "b \<noteq> a" for a b
  proof -
    from that inj[of a b] have "order b \<noteq> order a" by auto
    with D(4)[OF that(1,2)] that have "status b \<noteq> SENT" by blast
    with D(3)[OF that(2)] show ?thesis by blast
  qed
  have blocked: "execution validateWritablePath sv (evs @ [Attempt (t_path a)]) = ?w"
    if "a \<in> set (queue ?w)" "status a = SENT" for a
  proof -
    from that have "nextSendable (t_path a) ?w = None"
      by (auto simp: nextSendable_def list_ex_iff)
    then show ?thesis by (simp add: execution_append attempt_None)
  qed
  show ?thesis using one others blocked by blast
qed

theorem queue_at_most_one_sent_witness:
  "map status (queue (execution underInfo counterTree
      [CallRunTransaction counterRef increment None, CallRunTransaction counterRef increment None,
       Attempt [''counter''], Attempt [''counter'']])) = [SENT, RUN]
   \<and> map t_path (queue (execution underInfo counterTree
      [CallRunTransaction counterRef increment None, CallRunTransaction counterRef increment None,
       Attempt [''counter''], Attempt [''counter'']])) = [[''counter''], [''counter'']]
   \<and> length (filter (\<lambda>e. t_path e = [''counter''] \<and> status e = SENT)
        (queue (execution underInfo counterTree
      [CallRunTransaction counterRef increment None, CallRunTransaction counterRef increment None,
       Attempt [''counter''], Attempt [''counter'']]))) \<le> 1"
  using queue_at_most_one_sent [where validateWritablePath = underInfo and sv = counterTree
      and evs = "[CallRunTransaction counterRef increment None, CallRunTransaction counterRef increment None,
       Attempt [''counter''], Attempt [''counter'']]"]
  by (simp add: eval_defs underInfo_def increment_def counterRef_def counterTree_def)

lemma logInvI:
  assumes "\<And>cw. cw \<in> set (submitted w) \<Longrightarrow> cw_order cw < nextOrder w"
    and "\<And>cw e. cw \<in> set (submitted w) \<Longrightarrow> e \<in> set (queue w) \<Longrightarrow> order e = cw_order cw \<Longrightarrow> 0 < attempts e"
    and "\<And>x. x \<in> set (delivered w) \<Longrightarrow> fst x < nextOrder w"
    and "\<And>x e. x \<in> set (delivered w) \<Longrightarrow> e \<in> set (queue w) \<Longrightarrow> order e \<noteq> fst x"
  shows "logInv w"
  unfolding logInv_def using assms by blast

lemma logInvD:
  assumes "logInv w"
  shows "\<And>cw. cw \<in> set (submitted w) \<Longrightarrow> cw_order cw < nextOrder w"
    and "\<And>cw e. cw \<in> set (submitted w) \<Longrightarrow> e \<in> set (queue w) \<Longrightarrow> order e = cw_order cw \<Longrightarrow> 0 < attempts e"
    and "\<And>x. x \<in> set (delivered w) \<Longrightarrow> fst x < nextOrder w"
    and "\<And>x e. x \<in> set (delivered w) \<Longrightarrow> e \<in> set (queue w) \<Longrightarrow> order e \<noteq> fst x"
  using assms unfolding logInv_def by blast+

lemma logInv_markCompleted:
  assumes inv: "logInv w" and lt: "order e < nextOrder w"
  shows "logInv (markCompleted e out w)"
proof (rule logInvI)
  show "cw_order cw < nextOrder (markCompleted e out w)" if "cw \<in> set (submitted (markCompleted e out w))" for cw
    using that logInvD(1)[OF inv, of cw] by simp
  show "0 < attempts x"
    if "cw \<in> set (submitted (markCompleted e out w))" "x \<in> set (queue (markCompleted e out w))"
      "order x = cw_order cw" for cw x
    using that logInvD(2)[OF inv, of cw x] by simp
  show "fst x < nextOrder (markCompleted e out w)" if "x \<in> set (delivered (markCompleted e out w))" for x
    using that logInvD(3)[OF inv, of x] lt by auto
  show "order y \<noteq> fst x"
    if "x \<in> set (delivered (markCompleted e out w))" "y \<in> set (queue (markCompleted e out w))" for x y
    using that logInvD(4)[OF inv, of x y] by auto
qed

lemma logInv_replace:
  assumes inv: "logInv w" and e: "e \<in> set (queue w)"
    and ord: "order e' = order e" and att: "attempts e \<le> attempts e'"
    and q: "queue w' = map (\<lambda>x. if order x = order e then e' else x) (queue w)"
    and n: "nextOrder w' = nextOrder w" and s: "submitted w' = submitted w"
    and d: "delivered w' = delivered w"
  shows "logInv w'"
proof (rule logInvI)
  have mem: "x = e' \<or> (x \<in> set (queue w) \<and> order x \<noteq> order e)" if "x \<in> set (queue w')" for x
  proof -
    from that obtain y where y: "y \<in> set (queue w)" and x: "x = (if order y = order e then e' else y)"
      unfolding q by auto
    then show ?thesis by (cases "order y = order e") simp_all
  qed
  show "cw_order cw < nextOrder w'" if "cw \<in> set (submitted w')" for cw
    using that logInvD(1)[OF inv, of cw] by (simp add: s n)
  show "0 < attempts x" if cw: "cw \<in> set (submitted w')" and x: "x \<in> set (queue w')"
      and o: "order x = cw_order cw" for cw x
  proof -
    from mem[OF x] show ?thesis
    proof
      assume "x = e'"
      with o ord have "order e = cw_order cw" by simp
      with logInvD(2)[OF inv, of cw e] cw e have "0 < attempts e" by (simp add: s)
      with att \<open>x = e'\<close> show ?thesis by simp
    next
      assume "x \<in> set (queue w) \<and> order x \<noteq> order e"
      with logInvD(2)[OF inv, of cw x] cw o show ?thesis by (simp add: s)
    qed
  qed
  show "fst x < nextOrder w'" if "x \<in> set (delivered w')" for x
    using that logInvD(3)[OF inv, of x] by (simp add: d n)
  show "order y \<noteq> fst x" if x: "x \<in> set (delivered w')" and y: "y \<in> set (queue w')" for x y
  proof -
    from mem[OF y] show ?thesis
    proof
      assume "y = e'"
      with logInvD(4)[OF inv, of x e] x e ord show ?thesis by (simp add: d)
    next
      assume "y \<in> set (queue w) \<and> order y \<noteq> order e"
      with logInvD(4)[OF inv, of x y] x show ?thesis by (simp add: d)
    qed
  qed
qed

lemma logInv_submit:
  assumes inv: "logInv w" and lt: "n < nextOrder w"
    and att: "\<And>x. x \<in> set (queue w) \<Longrightarrow> order x = n \<Longrightarrow> 0 < attempts x"
    and q: "queue w' = queue w" and no: "nextOrder w' = nextOrder w"
    and s: "submitted w' = submitted w @ [cw]" and c: "cw_order cw = n"
    and d: "delivered w' = delivered w"
  shows "logInv w'"
proof (rule logInvI)
  show "cw_order c' < nextOrder w'" if "c' \<in> set (submitted w')" for c'
    using that logInvD(1)[OF inv, of c'] lt c by (auto simp: s no)
  show "0 < attempts x" if "c' \<in> set (submitted w')" "x \<in> set (queue w')" "order x = cw_order c'" for c' x
    using that logInvD(2)[OF inv, of c' x] att[of x] c by (auto simp: s q)
  show "fst x < nextOrder w'" if "x \<in> set (delivered w')" for x
    using that logInvD(3)[OF inv, of x] by (simp add: d no)
  show "order y \<noteq> fst x" if "x \<in> set (delivered w')" "y \<in> set (queue w')" for x y
    using that logInvD(4)[OF inv, of x y] by (simp add: d q)
qed

lemma logInv_serverValue [simp]: "logInv (w\<lparr>serverValue := x\<rparr>) = logInv w"
  by (simp add: logInv_def)

lemma logInv_markSent:
  assumes inv: "logInv w" and e: "e \<in> set (queue w)" and lt: "order e < nextOrder w"
    and ord: "order e1 = order e" and att: "attempts e1 = Suc (attempts e)"
  shows "logInv (markSent e1 v pre w)"
proof -
  define e2 where "e2 = e1\<lparr>status := SENT, currentOutputValue := Some v,
     currentWriteId := (if t_applyLocally e1 then Some (nextWriteId w) else None)\<rparr>"
  define wm where "wm = w\<lparr>queue := map (\<lambda>x. if order x = order e then e2 else x) (queue w)\<rparr>"
  have mid: "logInv wm"
    by (rule logInv_replace[OF inv e, where e' = e2]) (simp_all add: e2_def wm_def ord att)
  have q: "queue (markSent e1 v pre w) = queue wm"
    by (simp add: wm_def e2_def ord)
  show ?thesis
  proof (rule logInv_submit[OF mid, where n = "order e"])
    show "order e < nextOrder wm" using lt by (simp add: wm_def)
    show "0 < attempts x" if "x \<in> set (queue wm)" "order x = order e" for x
    proof -
      from that(1) obtain y where "y \<in> set (queue w)" "x = (if order y = order e then e2 else y)"
        by (auto simp: wm_def)
      with that(2) have "x = e2" by (cases "order y = order e") simp_all
      then show ?thesis by (simp add: e2_def att)
    qed
    show "queue (markSent e1 v pre w) = queue wm" by (rule q)
    show "nextOrder (markSent e1 v pre w) = nextOrder wm" by (simp add: wm_def)
    show "submitted (markSent e1 v pre w) =
       submitted wm @ [\<lparr>cw_order = order e1, cw_path = t_path e1, cw_value = v, cw_precondition = pre\<rparr>]"
      by (simp add: wm_def)
    show "cw_order \<lparr>cw_order = order e1, cw_path = t_path e1, cw_value = v, cw_precondition = pre\<rparr> = order e"
      by (simp add: ord)
    show "delivered (markSent e1 v pre w) = delivered wm" by (simp add: wm_def)
  qed
qed

lemma logInv_attempt:
  assumes qi: "queueInv w" and inv: "logInv w"
  shows "logInv (attempt p w)"
proof (cases "nextSendable p w")
  case None
  then show ?thesis using inv by (simp add: attempt_None)
next
  case (Some e)
  from nextSendable_Some[OF Some] have e: "e \<in> set (queue w)" by blast
  from queueInvD(2)[OF qi e] have lt: "order e < nextOrder w" .
  from attempt_Some[OF Some] obtain e1 where e1: "order e1 = order e" "attempts e1 = Suc (attempts e)"
    and cases: "(\<exists>v pre. attempt p w = markSent e1 v pre w) \<or> (\<exists>out. attempt p w = markCompleted e1 out w)"
    by blast
  from cases show ?thesis
  proof
    assume "\<exists>v pre. attempt p w = markSent e1 v pre w"
    then obtain v pre where eq: "attempt p w = markSent e1 v pre w" by blast
    show ?thesis unfolding eq by (rule logInv_markSent[OF inv e lt e1])
  next
    assume "\<exists>out. attempt p w = markCompleted e1 out w"
    then obtain out where eq: "attempt p w = markCompleted e1 out w" by blast
    show ?thesis unfolding eq by (rule logInv_markCompleted[OF inv]) (simp add: e1 lt)
  qed
qed

lemma logInv_serverVerdict:
  assumes qi: "queueInv w" and inv: "logInv w"
  shows "logInv (serverVerdict p v w)"
proof (cases "find (\<lambda>e. t_path e = p \<and> status e = SENT) (queue w)")
  case None
  then show ?thesis using inv by (simp add: serverVerdict_def)
next
  case (Some e)
  from find_SomeD[OF Some] have e: "e \<in> set (queue w)" by simp
  from queueInvD(2)[OF qi e] have lt: "order e < nextOrder w" .
  show ?thesis
  proof (cases v)
    case Accept
    show ?thesis
    proof (cases "currentOutputValue e")
      case None
      then show ?thesis using Some Accept inv by (simp add: serverVerdict_def)
    next
      case (Some x)
      have eq: "serverVerdict p v w = markCompleted e (Committed x) (w\<lparr>serverValue := setAt p x (serverValue w)\<rparr>)"
        using \<open>find _ _ = Some e\<close> Accept Some by (simp add: serverVerdict_def)
      show ?thesis unfolding eq by (rule logInv_markCompleted) (simp_all add: inv lt)
    qed
  next
    case (Conflict a)
    have eq: "serverVerdict p v w = replaceEntry (e\<lparr>status := RUN, currentInputSnapshot := a, currentWriteId := None\<rparr>) (removeWriteOf e w)"
      using Some Conflict by (simp add: serverVerdict_def)
    show ?thesis
      unfolding eq
      by (rule logInv_replace[OF inv e, where e' = "e\<lparr>status := RUN, currentInputSnapshot := a, currentWriteId := None\<rparr>"])
        simp_all
  next
    case (HardError err)
    have eq: "serverVerdict p v w = markCompleted e (Failed err) w"
      using Some HardError by (simp add: serverVerdict_def)
    show ?thesis unfolding eq by (rule logInv_markCompleted[OF inv lt])
  qed
qed

lemma logInv_abortAll:
  "logInv w \<Longrightarrow> (\<forall>e\<in>set es. order e < nextOrder w) \<Longrightarrow> logInv (abortAll es w)"
proof (induction es arbitrary: w)
  case Nil
  then show ?case by simp
next
  case (Cons e es)
  have "logInv (abortTransaction e w)"
    unfolding abortTransaction_def using Cons.prems by (intro logInv_markCompleted) simp_all
  moreover have "\<forall>x\<in>set es. order x < nextOrder (abortTransaction e w)"
    using Cons.prems(2) by simp
  ultimately show ?case using Cons.IH by simp
qed

lemma logInv_abortAllDescendants:
  assumes qi: "queueInv w" and inv: "logInv w"
  shows "logInv (abortAllDescendants p w)"
  unfolding abortAllDescendants_def
  by (rule logInv_abortAll[OF inv]) (use queueInvD(2)[OF qi] in simp)

lemma logInv_enqueue:
  assumes inv: "logInv w" and q: "queue w1 = queue w" and n: "nextOrder w1 = nextOrder w"
    and s: "submitted w1 = submitted w" and d: "delivered w1 = delivered w"
  shows "logInv (enqueue c w1)"
proof (rule logInvI)
  let ?new = "\<lparr>t_path = sc_path c, updateFn = sc_transactionUpdate c, order = nextOrder w1,
           status = RUN, currentInputSnapshot = Null, currentOutputValue = None,
           t_applyLocally = sc_applyLocally c, onComplete = sc_onComplete c,
           unwatcher = sc_unwatcher c, currentWriteId = None, attempts = 0\<rparr>"
  have mem: "x = ?new \<or> x \<in> set (queue w)" if "x \<in> set (queue (enqueue c w1))" for x
    using that by (auto simp: q)
  show "cw_order cw < nextOrder (enqueue c w1)" if "cw \<in> set (submitted (enqueue c w1))" for cw
    using that logInvD(1)[OF inv, of cw] by (simp add: s n)
  show "0 < attempts x"
    if cw: "cw \<in> set (submitted (enqueue c w1))" and x: "x \<in> set (queue (enqueue c w1))"
      and o: "order x = cw_order cw" for cw x
  proof -
    from cw have cw': "cw \<in> set (submitted w)" by (simp add: s)
    from mem[OF x] show ?thesis
    proof
      assume "x = ?new"
      with o logInvD(1)[OF inv cw'] show ?thesis by (simp add: n)
    next
      assume "x \<in> set (queue w)"
      with logInvD(2)[OF inv cw'] o show ?thesis by simp
    qed
  qed
  show "fst x < nextOrder (enqueue c w1)" if "x \<in> set (delivered (enqueue c w1))" for x
    using that logInvD(3)[OF inv, of x] by (simp add: d n)
  show "order y \<noteq> fst x"
    if x: "x \<in> set (delivered (enqueue c w1))" and y: "y \<in> set (queue (enqueue c w1))" for x y
  proof -
    from x have x': "x \<in> set (delivered w)" by (simp add: d)
    from mem[OF y] show ?thesis
    proof
      assume "y = ?new"
      with logInvD(3)[OF inv x'] show ?thesis by (simp add: n)
    next
      assume "y \<in> set (queue w)"
      with logInvD(4)[OF inv x'] show ?thesis by simp
    qed
  qed
qed

lemma inv_step:
  assumes "queueInv w \<and> logInv w"
  shows "queueInv (step validateWritablePath w ev) \<and> logInv (step validateWritablePath w ev)"
proof (rule conjI)
  show "queueInv (step validateWritablePath w ev)" using assms by (simp add: queueInv_step)
  from assms have qi: "queueInv w" and li: "logInv w" by simp_all
  show "logInv (step validateWritablePath w ev)"
  proof (cases ev)
    case (CallRunTransaction ref u opts)
    from runTransaction_enqueue[of validateWritablePath ref u opts w]
    show ?thesis
    proof
      assume "snd (runTransaction validateWritablePath subscribe enqueueTransaction ref u opts w) = w"
      then show ?thesis using li CallRunTransaction by simp
    next
      assume "\<exists>c w1. snd (runTransaction validateWritablePath subscribe enqueueTransaction ref u opts w) = enqueue c w1 \<and>
           queue w1 = queue w \<and> nextOrder w1 = nextOrder w \<and> submitted w1 = submitted w \<and>
           delivered w1 = delivered w \<and> sc_path c = ref_path ref"
      then obtain c w1 where "snd (runTransaction validateWritablePath subscribe enqueueTransaction ref u opts w) = enqueue c w1"
        "queue w1 = queue w" "nextOrder w1 = nextOrder w" "submitted w1 = submitted w" "delivered w1 = delivered w"
        by blast
      then show ?thesis using CallRunTransaction logInv_enqueue[OF li] by simp
    qed
  next
    case (Attempt p)
    then show ?thesis using logInv_attempt[OF qi li] by simp
  next
    case (ServerVerdict p v)
    then show ?thesis using logInv_serverVerdict[OF qi li] by simp
  next
    case (NotifyOverwrite p)
    then show ?thesis using logInv_abortAllDescendants[OF qi li] by simp
  next
    case (ServerPush p v)
    then show ?thesis using li by simp
  qed
qed

lemma inv_foldl:
  "queueInv w \<and> logInv w \<Longrightarrow>
   queueInv (foldl (step validateWritablePath) w evs) \<and> logInv (foldl (step validateWritablePath) w evs)"
proof (induction evs arbitrary: w)
  case Nil
  then show ?case by simp
next
  case (Cons ev evs)
  from inv_step[OF Cons.prems] Cons.IH show ?case by simp
qed

lemma inv_execution:
  "queueInv (execution validateWritablePath sv evs) \<and> logInv (execution validateWritablePath sv evs)"
  unfolding execution_def
  by (rule inv_foldl) (simp add: queueInv_initial, simp add: logInv_def initial_def)

lemma dequeuedI:
  "n < nextOrder w \<Longrightarrow> (\<And>e. e \<in> set (queue w) \<Longrightarrow> order e \<noteq> n) \<Longrightarrow> dequeued n w"
  unfolding dequeued_def by blast

lemma dequeuedD:
  assumes "dequeued n w"
  shows "n < nextOrder w" and "\<And>e. e \<in> set (queue w) \<Longrightarrow> order e \<noteq> n"
  using assms unfolding dequeued_def by blast+

lemma unchangedFor_refl: "dequeued n w \<Longrightarrow> unchangedFor n w w"
  by (simp add: unchangedFor_def)

lemma unchangedFor_trans:
  "unchangedFor n w w' \<Longrightarrow> unchangedFor n w' w'' \<Longrightarrow> unchangedFor n w w''"
  by (simp add: unchangedFor_def)

lemma unchangedFor_serverValue: "unchangedFor n w (w'\<lparr>serverValue := x\<rparr>) = unchangedFor n w w'"
  by (simp add: unchangedFor_def dequeued_def)

lemma unchangedFor_markCompleted:
  assumes dq: "dequeued n w" and ne: "order e \<noteq> n"
  shows "unchangedFor n w (markCompleted e out w)"
  unfolding unchangedFor_def
proof (intro conjI)
  show "dequeued n (markCompleted e out w)"
    by (rule dequeuedI) (use dequeuedD[OF dq] in simp_all)
  show "filter (\<lambda>cw. cw_order cw = n) (submitted (markCompleted e out w)) =
        filter (\<lambda>cw. cw_order cw = n) (submitted w)" by simp
  show "filter (\<lambda>x. fst x = n) (delivered (markCompleted e out w)) =
        filter (\<lambda>x. fst x = n) (delivered w)" using ne by simp
qed

lemma unchangedFor_replace:
  assumes dq: "dequeued n w" and ne: "order e' \<noteq> n"
    and q: "queue w' = map (\<lambda>x. if order x = order e' then e' else x) (queue w)"
    and no: "nextOrder w' = nextOrder w"
    and s: "filter (\<lambda>cw. cw_order cw = n) (submitted w') = filter (\<lambda>cw. cw_order cw = n) (submitted w)"
    and d: "delivered w' = delivered w"
  shows "unchangedFor n w w'"
  unfolding unchangedFor_def
proof (intro conjI)
  show "dequeued n w'"
  proof (rule dequeuedI)
    show "n < nextOrder w'" using dequeuedD(1)[OF dq] by (simp add: no)
    fix x assume "x \<in> set (queue w')"
    then obtain y where y: "y \<in> set (queue w)" and x: "x = (if order y = order e' then e' else y)"
      unfolding q by auto
    show "order x \<noteq> n"
      using x ne dequeuedD(2)[OF dq y] by (cases "order y = order e'") simp_all
  qed
  show "filter (\<lambda>cw. cw_order cw = n) (submitted w') = filter (\<lambda>cw. cw_order cw = n) (submitted w)"
    by (rule s)
  show "filter (\<lambda>x. fst x = n) (delivered w') = filter (\<lambda>x. fst x = n) (delivered w)"
    by (simp add: d)
qed

lemma unchangedFor_markSent:
  assumes dq: "dequeued n w" and ne: "order e1 \<noteq> n"
  shows "unchangedFor n w (markSent e1 v pre w)"
  by (rule unchangedFor_replace[OF dq, where e' = "e1\<lparr>status := SENT, currentOutputValue := Some v,
     currentWriteId := (if t_applyLocally e1 then Some (nextWriteId w) else None)\<rparr>"])
    (use ne in simp_all)

lemma unchangedFor_attempt:
  assumes dq: "dequeued n w"
  shows "unchangedFor n w (attempt p w)"
proof (cases "nextSendable p w")
  case None
  then show ?thesis using dq by (simp add: attempt_None unchangedFor_refl)
next
  case (Some e)
  from nextSendable_Some[OF Some] have e: "e \<in> set (queue w)" by blast
  from dequeuedD(2)[OF dq e] have ne: "order e \<noteq> n" .
  from attempt_Some[OF Some] obtain e1 where e1: "order e1 = order e"
    and cases: "(\<exists>v pre. attempt p w = markSent e1 v pre w) \<or> (\<exists>out. attempt p w = markCompleted e1 out w)"
    by blast
  from cases show ?thesis
  proof
    assume "\<exists>v pre. attempt p w = markSent e1 v pre w"
    then obtain v pre where eq: "attempt p w = markSent e1 v pre w" by blast
    show ?thesis unfolding eq by (rule unchangedFor_markSent[OF dq]) (simp add: e1 ne)
  next
    assume "\<exists>out. attempt p w = markCompleted e1 out w"
    then obtain out where eq: "attempt p w = markCompleted e1 out w" by blast
    show ?thesis unfolding eq by (rule unchangedFor_markCompleted[OF dq]) (simp add: e1 ne)
  qed
qed

lemma dequeued_serverValue [simp]: "dequeued n (w\<lparr>serverValue := x\<rparr>) = dequeued n w"
  by (simp add: dequeued_def)

lemma unchangedFor_serverVerdict:
  assumes dq: "dequeued n w"
  shows "unchangedFor n w (serverVerdict p v w)"
proof (cases "find (\<lambda>e. t_path e = p \<and> status e = SENT) (queue w)")
  case None
  then show ?thesis using dq by (simp add: serverVerdict_def unchangedFor_refl)
next
  case (Some e)
  from find_SomeD[OF Some] have e: "e \<in> set (queue w)" by simp
  from dequeuedD(2)[OF dq e] have ne: "order e \<noteq> n" .
  show ?thesis
  proof (cases v)
    case Accept
    show ?thesis
    proof (cases "currentOutputValue e")
      case None
      then show ?thesis using Some Accept dq by (simp add: serverVerdict_def unchangedFor_refl)
    next
      case (Some x)
      let ?w = "w\<lparr>serverValue := setAt p x (serverValue w)\<rparr>"
      have eq: "serverVerdict p v w = markCompleted e (Committed x) ?w"
        using \<open>find _ _ = Some e\<close> Accept Some by (simp add: serverVerdict_def)
      have "unchangedFor n ?w (markCompleted e (Committed x) ?w)"
        by (rule unchangedFor_markCompleted) (simp_all add: dq ne)
      then show ?thesis unfolding eq by (simp add: unchangedFor_def)
    qed
  next
    case (Conflict a)
    have eq: "serverVerdict p v w = replaceEntry (e\<lparr>status := RUN, currentInputSnapshot := a, currentWriteId := None\<rparr>) (removeWriteOf e w)"
      using Some Conflict by (simp add: serverVerdict_def)
    show ?thesis
      unfolding eq
      by (rule unchangedFor_replace[OF dq, where e' = "e\<lparr>status := RUN, currentInputSnapshot := a, currentWriteId := None\<rparr>"])
        (use ne in simp_all)
  next
    case (HardError err)
    have eq: "serverVerdict p v w = markCompleted e (Failed err) w"
      using Some HardError by (simp add: serverVerdict_def)
    show ?thesis unfolding eq by (rule unchangedFor_markCompleted[OF dq ne])
  qed
qed

lemma unchangedFor_dequeued: "unchangedFor n w w' \<Longrightarrow> dequeued n w'"
  by (simp add: unchangedFor_def)

lemma unchangedFor_abortAll:
  "dequeued n w \<Longrightarrow> (\<forall>e\<in>set es. order e \<noteq> n) \<Longrightarrow> unchangedFor n w (abortAll es w)"
proof (induction es arbitrary: w)
  case Nil
  then show ?case by (simp add: unchangedFor_refl)
next
  case (Cons e es)
  have 1: "unchangedFor n w (abortTransaction e w)"
    unfolding abortTransaction_def using Cons.prems by (intro unchangedFor_markCompleted) simp_all
  have 2: "unchangedFor n (abortTransaction e w) (abortAll es (abortTransaction e w))"
    by (rule Cons.IH[OF unchangedFor_dequeued[OF 1]]) (use Cons.prems(2) in simp)
  from unchangedFor_trans[OF 1 2] show ?case by simp
qed

lemma unchangedFor_enqueue:
  assumes dq: "dequeued n w" and q: "queue w1 = queue w" and no: "nextOrder w1 = nextOrder w"
    and s: "submitted w1 = submitted w" and d: "delivered w1 = delivered w"
  shows "unchangedFor n w (enqueue c w1)"
  unfolding unchangedFor_def
proof (intro conjI)
  show "dequeued n (enqueue c w1)"
  proof (rule dequeuedI)
    show "n < nextOrder (enqueue c w1)" using dequeuedD(1)[OF dq] by (simp add: no)
    fix e assume "e \<in> set (queue (enqueue c w1))"
    then have "order e = nextOrder w \<or> e \<in> set (queue w)" by (auto simp: q no)
    then show "order e \<noteq> n" using dequeuedD[OF dq] by auto
  qed
qed (simp_all add: s d)

lemma unchangedFor_step:
  assumes dq: "dequeued n w"
  shows "unchangedFor n w (step validateWritablePath w ev)"
proof (cases ev)
  case (CallRunTransaction ref u opts)
  from runTransaction_enqueue[of validateWritablePath ref u opts w]
  show ?thesis
  proof
    assume "snd (runTransaction validateWritablePath subscribe enqueueTransaction ref u opts w) = w"
    then show ?thesis using dq CallRunTransaction by (simp add: unchangedFor_refl)
  next
    assume "\<exists>c w1. snd (runTransaction validateWritablePath subscribe enqueueTransaction ref u opts w) = enqueue c w1 \<and>
         queue w1 = queue w \<and> nextOrder w1 = nextOrder w \<and> submitted w1 = submitted w \<and>
         delivered w1 = delivered w \<and> sc_path c = ref_path ref"
    then obtain c w1 where "snd (runTransaction validateWritablePath subscribe enqueueTransaction ref u opts w) = enqueue c w1"
      "queue w1 = queue w" "nextOrder w1 = nextOrder w" "submitted w1 = submitted w" "delivered w1 = delivered w"
      by blast
    then show ?thesis using CallRunTransaction unchangedFor_enqueue[OF dq] by simp
  qed
next
  case (Attempt p)
  then show ?thesis using unchangedFor_attempt[OF dq] by simp
next
  case (ServerVerdict p v)
  then show ?thesis using unchangedFor_serverVerdict[OF dq] by simp
next
  case (NotifyOverwrite p)
  have "unchangedFor n w (abortAllDescendants p w)"
    unfolding abortAllDescendants_def
    by (rule unchangedFor_abortAll[OF dq]) (use dequeuedD(2)[OF dq] in simp)
  then show ?thesis using NotifyOverwrite by simp
next
  case (ServerPush p v)
  then show ?thesis using dq by (simp add: unchangedFor_serverValue unchangedFor_refl)
qed

lemma unchangedFor_foldl:
  "dequeued n w \<Longrightarrow> unchangedFor n w (foldl (step validateWritablePath) w evs)"
proof (induction evs arbitrary: w)
  case Nil
  then show ?case by (simp add: unchangedFor_refl)
next
  case (Cons ev evs)
  have 1: "unchangedFor n w (step validateWritablePath w ev)"
    by (rule unchangedFor_step[OF Cons.prems])
  have 2: "unchangedFor n (step validateWritablePath w ev)
             (foldl (step validateWritablePath) (step validateWritablePath w ev) evs)"
    by (rule Cons.IH[OF unchangedFor_dequeued[OF 1]])
  from unchangedFor_trans[OF 1 2] show ?case by simp
qed

lemma filter_none: "(\<And>x. x \<in> set xs \<Longrightarrow> \<not> P x) \<Longrightarrow> filter P xs = []"
  by (simp add: filter_empty_conv)

lemma callbackInvI:
  assumes "distinct (map (\<lambda>e. cbIndex (onComplete e)) (queue w))"
    and "\<And>e. e \<in> set (queue w) \<Longrightarrow> cbIndex (onComplete e) < length (deferreds w)"
    and "\<And>e. e \<in> set (queue w) \<Longrightarrow> promise (deferreds w ! cbIndex (onComplete e)) = Pending"
    and "\<And>e. e \<in> set (queue w) \<Longrightarrow> ref_path (cbRef (onComplete e)) = t_path e"
  shows "callbackInv w"
  unfolding callbackInv_def using assms by blast

lemma callbackInvD:
  assumes "callbackInv w"
  shows "distinct (map (\<lambda>e. cbIndex (onComplete e)) (queue w))"
    and "\<And>e. e \<in> set (queue w) \<Longrightarrow> cbIndex (onComplete e) < length (deferreds w)"
    and "\<And>e. e \<in> set (queue w) \<Longrightarrow> promise (deferreds w ! cbIndex (onComplete e)) = Pending"
    and "\<And>e. e \<in> set (queue w) \<Longrightarrow> ref_path (cbRef (onComplete e)) = t_path e"
  using assms unfolding callbackInv_def by blast+

lemma resultDelivery_deferreds:
  "deferreds (resultDelivery cb out w) =
     (deferreds w)[cbIndex cb :=
        promiseComplete (cbRef cb) (fst (callbackArgs out)) (fst (snd (callbackArgs out)))
          (snd (snd (callbackArgs out))) (deferreds w ! cbIndex cb)]"
  by (cases cb) (simp split: prod.splits)

lemma markCompleted_deferreds_update:
  "deferreds (markCompleted e out w) =
     (deferreds w)[cbIndex (onComplete e) :=
        promiseComplete (cbRef (onComplete e)) (fst (callbackArgs out))
          (fst (snd (callbackArgs out))) (snd (snd (callbackArgs out)))
          (deferreds w ! cbIndex (onComplete e))]"
  by (simp add: markCompleted_deferreds resultDelivery_deferreds)

lemma more_deferreds [simp]:
  "deferreds (markSent e v pre w) = deferreds w"
  "deferreds (replaceEntry e w) = deferreds w"
  "deferreds (enqueue c w) = deferreds w"
  by (simp_all add: markSent_def addWrite_def replaceEntry_def enqueue_def Let_def)

lemma callbackInv_markCompleted:
  assumes inv: "callbackInv w" and e: "e \<in> set (queue w)"
    and ord: "order e1 = order e" and cb: "onComplete e1 = onComplete e"
  shows "callbackInv (markCompleted e1 out w)"
proof (rule callbackInvI)
  let ?f = "\<lambda>e. cbIndex (onComplete e)"
  note D = callbackInvD[OF inv]
  have q: "queue (markCompleted e1 out w) = filter (\<lambda>x. order x \<noteq> order e) (queue w)"
    by (simp add: ord)
  show "distinct (map ?f (queue (markCompleted e1 out w)))"
    unfolding q using D(1) by (rule distinct_map_filter)
  have other: "?f x \<noteq> ?f e" if "x \<in> set (queue (markCompleted e1 out w))" for x
  proof
    assume eq: "?f x = ?f e"
    from that have x: "x \<in> set (queue w)" and ne: "order x \<noteq> order e" by (simp_all add: ord)
    from D(1) have "inj_on ?f (set (queue w))" by (simp add: distinct_map)
    from inj_onD[OF this eq x e] ne show False by simp
  qed
  have dfd: "deferreds (markCompleted e1 out w) =
      (deferreds w)[?f e := promiseComplete (cbRef (onComplete e)) (fst (callbackArgs out))
          (fst (snd (callbackArgs out))) (snd (snd (callbackArgs out))) (deferreds w ! ?f e)]"
    by (simp add: markCompleted_deferreds_update cb)
  show "?f x < length (deferreds (markCompleted e1 out w))"
    if "x \<in> set (queue (markCompleted e1 out w))" for x
    using that D(2)[of x] by (simp add: dfd ord)
  show "promise (deferreds (markCompleted e1 out w) ! ?f x) = Pending"
    if "x \<in> set (queue (markCompleted e1 out w))" for x
    using other[OF that] that D(3)[of x] by (simp add: dfd ord)
  show "ref_path (cbRef (onComplete x)) = t_path x"
    if "x \<in> set (queue (markCompleted e1 out w))" for x
    using that D(4)[of x] by (simp add: ord)
qed

lemma callbackInv_replace:
  assumes inv: "callbackInv w" and qi: "queueInv w" and e: "e \<in> set (queue w)"
    and ord: "order e' = order e" and cb: "onComplete e' = onComplete e" and pth: "t_path e' = t_path e"
    and q: "queue w' = map (\<lambda>x. if order x = order e then e' else x) (queue w)"
    and d: "deferreds w' = deferreds w"
  shows "callbackInv w'"
proof (rule callbackInvI)
  let ?f = "\<lambda>e. cbIndex (onComplete e)"
  note D = callbackInvD[OF inv]
  have same: "x = e" if "x \<in> set (queue w)" "order x = order e" for x
    using queueInvD(1)[OF qi] that e by (auto simp: distinct_map inj_on_def)
  have "map ?f (queue w') = map (\<lambda>x. ?f (if order x = order e then e' else x)) (queue w)"
    unfolding q by (simp add: comp_def)
  also have "\<dots> = map ?f (queue w)"
  proof (rule map_cong)
    fix x assume "x \<in> set (queue w)"
    then show "?f (if order x = order e then e' else x) = ?f x"
      using same[of x] cb by auto
  qed simp
  finally have feq: "map ?f (queue w') = map ?f (queue w)" .
  show "distinct (map ?f (queue w'))" unfolding feq by (rule D(1))
  have mem: "x = e' \<or> x \<in> set (queue w)" if "x \<in> set (queue w')" for x
    using that unfolding q by auto
  show "?f x < length (deferreds w')" if "x \<in> set (queue w')" for x
    using mem[OF that] D(2)[of x] D(2)[OF e] cb by (auto simp: d)
  show "promise (deferreds w' ! ?f x) = Pending" if "x \<in> set (queue w')" for x
    using mem[OF that] D(3)[of x] D(3)[OF e] cb by (auto simp: d)
  show "ref_path (cbRef (onComplete x)) = t_path x" if "x \<in> set (queue w')" for x
    using mem[OF that] D(4)[of x] D(4)[OF e] cb pth by auto
qed

lemma callbackInv_markSent:
  assumes inv: "callbackInv w" and qi: "queueInv w" and e: "e \<in> set (queue w)"
    and ord: "order e1 = order e" and cb: "onComplete e1 = onComplete e" and pth: "t_path e1 = t_path e"
  shows "callbackInv (markSent e1 v pre w)"
  by (rule callbackInv_replace[OF inv qi e, where e' = "e1\<lparr>status := SENT, currentOutputValue := Some v,
     currentWriteId := (if t_applyLocally e1 then Some (nextWriteId w) else None)\<rparr>"])
    (simp_all add: ord cb pth)

lemma attempt_Some_cb:
  assumes "nextSendable p w = Some e"
  shows "\<exists>e1. order e1 = order e \<and> t_path e1 = t_path e \<and> onComplete e1 = onComplete e
            \<and> ((\<exists>v pre. attempt p w = markSent e1 v pre w)
               \<or> (\<exists>out. attempt p w = markCompleted e1 out w))"
proof -
  define input where "input = (if attempts e = 0 then overlayedValue w p else currentInputSnapshot e)"
  define pre where "pre = (if attempts e = 0 then getAt p (serverValue w) else currentInputSnapshot e)"
  define e1 where "e1 = e\<lparr>currentInputSnapshot := input, attempts := Suc (attempts e)\<rparr>"
  have eq: "attempt p w =
      (case updateFn e input of
         Return v \<Rightarrow> markSent e1 v pre w
       | ReturnUndefined \<Rightarrow> markCompleted e1 (Aborted None input) w
       | Throw err \<Rightarrow> markCompleted e1 (Failed err) w)"
    unfolding attempt_def input_def pre_def e1_def using assms by (simp add: Let_def)
  have "(\<exists>v pre. attempt p w = markSent e1 v pre w) \<or> (\<exists>out. attempt p w = markCompleted e1 out w)"
    unfolding eq by (cases "updateFn e input") auto
  moreover have "order e1 = order e \<and> t_path e1 = t_path e \<and> onComplete e1 = onComplete e"
    by (simp add: e1_def)
  ultimately show ?thesis by blast
qed

lemma callbackInv_attempt:
  assumes inv: "callbackInv w" and qi: "queueInv w"
  shows "callbackInv (attempt p w)"
proof (cases "nextSendable p w")
  case None
  then show ?thesis using inv by (simp add: attempt_None)
next
  case (Some e)
  from nextSendable_Some[OF Some] have e: "e \<in> set (queue w)" by blast
  from attempt_Some_cb[OF Some] obtain e1 where e1: "order e1 = order e" "onComplete e1 = onComplete e"
      "t_path e1 = t_path e"
    and cases: "(\<exists>v pre. attempt p w = markSent e1 v pre w) \<or> (\<exists>out. attempt p w = markCompleted e1 out w)"
    by blast
  from cases show ?thesis
  proof
    assume "\<exists>v pre. attempt p w = markSent e1 v pre w"
    then obtain v pre where eq: "attempt p w = markSent e1 v pre w" by blast
    show ?thesis unfolding eq by (rule callbackInv_markSent[OF inv qi e e1(1,2,3)])
  next
    assume "\<exists>out. attempt p w = markCompleted e1 out w"
    then obtain out where eq: "attempt p w = markCompleted e1 out w" by blast
    show ?thesis unfolding eq by (rule callbackInv_markCompleted[OF inv e e1(1,2)])
  qed
qed

lemma callbackInv_serverValue [simp]: "callbackInv (w\<lparr>serverValue := x\<rparr>) = callbackInv w"
  by (simp add: callbackInv_def)

lemma callbackInv_serverVerdict:
  assumes inv: "callbackInv w" and qi: "queueInv w"
  shows "callbackInv (serverVerdict p v w)"
proof (cases "find (\<lambda>e. t_path e = p \<and> status e = SENT) (queue w)")
  case None
  then show ?thesis using inv by (simp add: serverVerdict_def)
next
  case (Some e)
  from find_SomeD[OF Some] have e: "e \<in> set (queue w)" by simp
  show ?thesis
  proof (cases v)
    case Accept
    show ?thesis
    proof (cases "currentOutputValue e")
      case None
      then show ?thesis using Some Accept inv by (simp add: serverVerdict_def)
    next
      case (Some x)
      have eq: "serverVerdict p v w = markCompleted e (Committed x) (w\<lparr>serverValue := setAt p x (serverValue w)\<rparr>)"
        using \<open>find _ _ = Some e\<close> Accept Some by (simp add: serverVerdict_def)
      show ?thesis unfolding eq by (rule callbackInv_markCompleted) (simp_all add: inv e)
    qed
  next
    case (Conflict a)
    have eq: "serverVerdict p v w = replaceEntry (e\<lparr>status := RUN, currentInputSnapshot := a, currentWriteId := None\<rparr>) (removeWriteOf e w)"
      using Some Conflict by (simp add: serverVerdict_def)
    show ?thesis
      unfolding eq
      by (rule callbackInv_replace[OF inv qi e, where e' = "e\<lparr>status := RUN, currentInputSnapshot := a, currentWriteId := None\<rparr>"])
        simp_all
  next
    case (HardError err)
    have eq: "serverVerdict p v w = markCompleted e (Failed err) w"
      using Some HardError by (simp add: serverVerdict_def)
    show ?thesis unfolding eq by (rule callbackInv_markCompleted[OF inv e]) simp_all
  qed
qed

lemma callbackInv_abortAll:
  "callbackInv w \<Longrightarrow> set es \<subseteq> set (queue w) \<Longrightarrow> distinct (map order es) \<Longrightarrow>
   callbackInv (abortAll es w)"
proof (induction es arbitrary: w)
  case Nil
  then show ?case by simp
next
  case (Cons a es)
  from Cons.prems(2) have a: "a \<in> set (queue w)" by simp
  have 1: "callbackInv (abortTransaction a w)"
    unfolding abortTransaction_def by (rule callbackInv_markCompleted[OF Cons.prems(1) a]) simp_all
  have 2: "set es \<subseteq> set (queue (abortTransaction a w))"
  proof
    fix x assume x: "x \<in> set es"
    then have "order x \<in> order ` set es" by (rule imageI)
    moreover from Cons.prems(3) have "order a \<notin> order ` set es" by simp
    ultimately have "order x \<noteq> order a" by metis
    with x Cons.prems(2) show "x \<in> set (queue (abortTransaction a w))" by auto
  qed
  from Cons.prems(3) have 3: "distinct (map order es)" by simp
  from Cons.IH[OF 1 2 3] show ?case by simp
qed

lemma callbackInv_abortAllDescendants:
  assumes inv: "callbackInv w" and qi: "queueInv w"
  shows "callbackInv (abortAllDescendants p w)"
  unfolding abortAllDescendants_def
proof (rule callbackInv_abortAll[OF inv])
  show "set (filter (\<lambda>e. overlapping p (t_path e)) (queue w)) \<subseteq> set (queue w)" by auto
  show "distinct (map order (filter (\<lambda>e. overlapping p (t_path e)) (queue w)))"
    using queueInvD(1)[OF qi] by (rule distinct_map_filter)
qed

lemma callbackInv_enqueue:
  assumes inv: "callbackInv w" and q: "queue w1 = queue w"
    and d: "deferreds w1 = deferreds w @ [new_Deferred]"
    and cb: "sc_onComplete c = PromiseComplete (length (deferreds w)) ref"
    and pth: "sc_path c = ref_path ref"
  shows "callbackInv (enqueue c w1)"
proof (rule callbackInvI)
  let ?f = "\<lambda>e. cbIndex (onComplete e)"
  note D = callbackInvD[OF inv]
  let ?new = "\<lparr>t_path = sc_path c, updateFn = sc_transactionUpdate c, order = nextOrder w1,
           status = RUN, currentInputSnapshot = Null, currentOutputValue = None,
           t_applyLocally = sc_applyLocally c, onComplete = sc_onComplete c,
           unwatcher = sc_unwatcher c, currentWriteId = None, attempts = 0\<rparr>"
  have qe: "queue (enqueue c w1) = queue w @ [?new]" by (simp add: q)
  have fnew: "?f ?new = length (deferreds w)" by (simp add: cb)
  have fresh: "length (deferreds w) \<notin> ?f ` set (queue w)"
    using D(2) by fastforce
  show "distinct (map ?f (queue (enqueue c w1)))"
    unfolding qe using D(1) fresh fnew by simp
  have mem: "x = ?new \<or> x \<in> set (queue w)" if "x \<in> set (queue (enqueue c w1))" for x
    using that unfolding qe by auto
  show "?f x < length (deferreds (enqueue c w1))" if "x \<in> set (queue (enqueue c w1))" for x
    using mem[OF that] D(2)[of x] fnew by (auto simp: d)
  show "promise (deferreds (enqueue c w1) ! ?f x) = Pending" if "x \<in> set (queue (enqueue c w1))" for x
  proof -
    from mem[OF that] show ?thesis
    proof
      assume "x = ?new"
      then show ?thesis using fnew by (simp add: d new_Deferred_def)
    next
      assume x: "x \<in> set (queue w)"
      from D(2)[OF x] D(3)[OF x] show ?thesis by (simp add: d nth_append)
    qed
  qed
  show "ref_path (cbRef (onComplete x)) = t_path x" if "x \<in> set (queue (enqueue c w1))" for x
    using mem[OF that] D(4)[of x] cb pth by auto
qed

lemma callbackInv_step:
  assumes inv: "callbackInv w" and qi: "queueInv w"
  shows "callbackInv (step validateWritablePath w ev)"
proof (cases ev)
  case (CallRunTransaction ref u opts)
  from runTransaction_enqueue_full[of validateWritablePath ref u opts w]
  show ?thesis
  proof
    assume "snd (runTransaction validateWritablePath subscribe enqueueTransaction ref u opts w) = w"
    then show ?thesis using inv CallRunTransaction by simp
  next
    assume "\<exists>c w1. snd (runTransaction validateWritablePath subscribe enqueueTransaction ref u opts w) =
                enqueue c w1
        \<and> queue w1 = queue w \<and> nextOrder w1 = nextOrder w \<and> submitted w1 = submitted w
        \<and> delivered w1 = delivered w \<and> sc_path c = ref_path ref
        \<and> deferreds w1 = deferreds w @ [new_Deferred]
        \<and> sc_onComplete c = PromiseComplete (length (deferreds w)) ref"
    then obtain c w1 where
      eq: "snd (runTransaction validateWritablePath subscribe enqueueTransaction ref u opts w) = enqueue c w1"
      and f: "queue w1 = queue w" "deferreds w1 = deferreds w @ [new_Deferred]"
        "sc_onComplete c = PromiseComplete (length (deferreds w)) ref" "sc_path c = ref_path ref"
      by blast
    show ?thesis using CallRunTransaction eq callbackInv_enqueue[OF inv f] by simp
  qed
next
  case (Attempt p)
  then show ?thesis using callbackInv_attempt[OF inv qi] by simp
next
  case (ServerVerdict p v)
  then show ?thesis using callbackInv_serverVerdict[OF inv qi] by simp
next
  case (NotifyOverwrite p)
  then show ?thesis using callbackInv_abortAllDescendants[OF inv qi] by simp
next
  case (ServerPush p v)
  then show ?thesis using inv by simp
qed

lemma callbackInv_foldl:
  "callbackInv w \<Longrightarrow> queueInv w \<Longrightarrow> callbackInv (foldl (step validateWritablePath) w evs)"
proof (induction evs arbitrary: w)
  case Nil
  then show ?case by simp
next
  case (Cons ev evs)
  from callbackInv_step[OF Cons.prems] queueInv_step[OF Cons.prems(2)] Cons.IH
  show ?case by simp
qed

lemma callbackInv_execution: "callbackInv (execution validateWritablePath sv evs)"
  unfolding execution_def
  by (rule callbackInv_foldl) (simp add: callbackInv_def initial_def, rule queueInv_initial)

lemma settledAs_same:
  "settledAs d s w \<Longrightarrow> deferreds w' = deferreds w \<Longrightarrow> settledAs d s w'"
  by (simp add: settledAs_def)

lemma settledAs_update:
  assumes st: "settledAs d s w" and ne: "s \<noteq> Pending"
    and df: "deferreds w' = (deferreds w)[i := promiseComplete ref er c n (deferreds w ! i)]"
  shows "settledAs d s w'"
proof (cases "i = d")
  case True
  from st have "promise (deferreds w ! d) \<noteq> Pending" using ne by (simp add: settledAs_def)
  from promiseComplete_settled[OF this, of ref er c n] st True show ?thesis
    by (simp add: settledAs_def df)
next
  case False
  with st show ?thesis by (simp add: settledAs_def df)
qed

lemma settledAs_markCompleted:
  "settledAs d s w \<Longrightarrow> s \<noteq> Pending \<Longrightarrow> settledAs d s (markCompleted e out w)"
  by (rule settledAs_update[OF _ _ markCompleted_deferreds_update])

lemma settledAs_attempt:
  assumes st: "settledAs d s w" and ne: "s \<noteq> Pending"
  shows "settledAs d s (attempt p w)"
proof (cases "nextSendable p w")
  case None
  then show ?thesis using st by (simp add: attempt_None)
next
  case (Some e)
  from attempt_Some[OF Some] obtain e1 where
    "(\<exists>v pre. attempt p w = markSent e1 v pre w) \<or> (\<exists>out. attempt p w = markCompleted e1 out w)"
    by blast
  then show ?thesis
  proof
    assume "\<exists>v pre. attempt p w = markSent e1 v pre w"
    then obtain v pre where eq: "attempt p w = markSent e1 v pre w" by blast
    show ?thesis unfolding eq by (rule settledAs_same[OF st]) simp
  next
    assume "\<exists>out. attempt p w = markCompleted e1 out w"
    then obtain out where eq: "attempt p w = markCompleted e1 out w" by blast
    show ?thesis unfolding eq by (rule settledAs_markCompleted[OF st ne])
  qed
qed

lemma settledAs_serverValue [simp]: "settledAs d s (w\<lparr>serverValue := x\<rparr>) = settledAs d s w"
  by (simp add: settledAs_def)

lemma settledAs_serverVerdict:
  assumes st: "settledAs d s w" and ne: "s \<noteq> Pending"
  shows "settledAs d s (serverVerdict p v w)"
proof (cases "find (\<lambda>e. t_path e = p \<and> status e = SENT) (queue w)")
  case None
  then show ?thesis using st by (simp add: serverVerdict_def)
next
  case (Some e)
  show ?thesis
  proof (cases v)
    case Accept
    show ?thesis
    proof (cases "currentOutputValue e")
      case None
      then show ?thesis using Some Accept st by (simp add: serverVerdict_def)
    next
      case (Some x)
      have eq: "serverVerdict p v w = markCompleted e (Committed x) (w\<lparr>serverValue := setAt p x (serverValue w)\<rparr>)"
        using \<open>find _ _ = Some e\<close> Accept Some by (simp add: serverVerdict_def)
      show ?thesis unfolding eq by (rule settledAs_markCompleted) (simp_all add: st ne)
    qed
  next
    case (Conflict a)
    have eq: "serverVerdict p v w = replaceEntry (e\<lparr>status := RUN, currentInputSnapshot := a, currentWriteId := None\<rparr>) (removeWriteOf e w)"
      using Some Conflict by (simp add: serverVerdict_def)
    show ?thesis unfolding eq by (rule settledAs_same[OF st]) simp
  next
    case (HardError err)
    have eq: "serverVerdict p v w = markCompleted e (Failed err) w"
      using Some HardError by (simp add: serverVerdict_def)
    show ?thesis unfolding eq by (rule settledAs_markCompleted[OF st ne])
  qed
qed

lemma settledAs_abortAll:
  "settledAs d s w \<Longrightarrow> s \<noteq> Pending \<Longrightarrow> settledAs d s (abortAll es w)"
proof (induction es arbitrary: w)
  case Nil
  then show ?case by simp
next
  case (Cons a es)
  have "settledAs d s (abortTransaction a w)"
    unfolding abortTransaction_def by (rule settledAs_markCompleted[OF Cons.prems])
  from Cons.IH[OF this Cons.prems(2)] show ?case by simp
qed

lemma settledAs_step:
  assumes st: "settledAs d s w" and ne: "s \<noteq> Pending"
  shows "settledAs d s (step validateWritablePath w ev)"
proof (cases ev)
  case (CallRunTransaction ref u opts)
  from runTransaction_enqueue_full[of validateWritablePath ref u opts w]
  show ?thesis
  proof
    assume "snd (runTransaction validateWritablePath subscribe enqueueTransaction ref u opts w) = w"
    then show ?thesis using st CallRunTransaction by simp
  next
    assume "\<exists>c w1. snd (runTransaction validateWritablePath subscribe enqueueTransaction ref u opts w) =
                enqueue c w1
        \<and> queue w1 = queue w \<and> nextOrder w1 = nextOrder w \<and> submitted w1 = submitted w
        \<and> delivered w1 = delivered w \<and> sc_path c = ref_path ref
        \<and> deferreds w1 = deferreds w @ [new_Deferred]
        \<and> sc_onComplete c = PromiseComplete (length (deferreds w)) ref"
    then obtain c w1 where
      eq: "snd (runTransaction validateWritablePath subscribe enqueueTransaction ref u opts w) = enqueue c w1"
      and f: "deferreds w1 = deferreds w @ [new_Deferred]"
      by blast
    have "settledAs d s (enqueue c w1)"
      using st by (simp add: settledAs_def f nth_append)
    then show ?thesis using CallRunTransaction eq by simp
  qed
next
  case (Attempt p)
  then show ?thesis using settledAs_attempt[OF st ne] by simp
next
  case (ServerVerdict p v)
  then show ?thesis using settledAs_serverVerdict[OF st ne] by simp
next
  case (NotifyOverwrite p)
  then show ?thesis using settledAs_abortAll[OF st ne] by (simp add: abortAllDescendants_def)
next
  case (ServerPush p v)
  then show ?thesis using st by simp
qed

lemma settledAs_foldl:
  "settledAs d s w \<Longrightarrow> s \<noteq> Pending \<Longrightarrow> settledAs d s (foldl (step validateWritablePath) w evs)"
proof (induction evs arbitrary: w)
  case Nil
  then show ?case by simp
next
  case (Cons ev evs)
  from Cons.IH[OF settledAs_step[OF Cons.prems] Cons.prems(2)] show ?case by simp
qed

text \<open>
  C7. Let \<open>e\<close> be the head sendable entry of the path \<open>p\<close> after the events \<open>evs\<close>, not yet
  attempted, whose update function returns \<^verbatim>\<open>undefined\<close> on the overlayed value at \<open>p\<close>.
  The entry is RUN, and the attempt leaves no pending write of it in the registry.
  Whatever happens afterwards, no conditional write of \<open>e\<close> has been submitted, \<open>e\<close> is not
  in the queue (it is never SENT), the one outcome delivered for \<open>e\<close> is aborted, without a
  condition, with the input snapshot of that invocation, and the promise of \<open>e\<close> is
  fulfilled with \<open>committed = false\<close> and a snapshot of that input value at \<open>p\<close>.
\<close>

theorem undefined_on_first_invocation:
  assumes ns: "nextSendable p (execution validateWritablePath sv evs) = Some e"
    and first: "attempts e = 0"
    and undef: "updateFn e (overlayedValue (execution validateWritablePath sv evs) p) = ReturnUndefined"
  shows "status e = RUN
       \<and> (\<forall>pw\<in>set (writes (execution validateWritablePath sv (evs @ [Attempt p]))).
             Some (writeId pw) \<noteq> currentWriteId e)
       \<and> (\<forall>evs'.
             filter (\<lambda>cw. cw_order cw = order e)
               (submitted (execution validateWritablePath sv (evs @ Attempt p # evs'))) = []
           \<and> (\<forall>x\<in>set (queue (execution validateWritablePath sv (evs @ Attempt p # evs'))).
                 order x \<noteq> order e)
           \<and> filter (\<lambda>x. fst x = order e)
               (delivered (execution validateWritablePath sv (evs @ Attempt p # evs'))) =
               [(order e, Aborted None (overlayedValue (execution validateWritablePath sv evs) p))]
           \<and> cbIndex (onComplete e) <
               length (deferreds (execution validateWritablePath sv (evs @ Attempt p # evs')))
           \<and> promise (deferreds (execution validateWritablePath sv (evs @ Attempt p # evs')) !
                 cbIndex (onComplete e)) =
               Fulfilled
                 \<lparr>committed = False,
                  snapshot =
                    \<lparr>snap_node = Some (overlayedValue (execution validateWritablePath sv evs) p),
                     snap_ref = ReferenceImpl (ref_repo (cbRef (onComplete e))) p,
                     snap_index = PRIORITY_INDEX\<rparr>\<rparr>)"
proof -
  define w where "w = execution validateWritablePath sv evs"
  define input where "input = overlayedValue w p"
  define e1 where "e1 = e\<lparr>currentInputSnapshot := input, attempts := Suc 0\<rparr>"
  define d where "d = cbIndex (onComplete e)"
  define res where "res = Fulfilled
                 \<lparr>committed = False,
                  snapshot =
                    \<lparr>snap_node = Some input,
                     snap_ref = ReferenceImpl (ref_repo (cbRef (onComplete e))) p,
                     snap_index = PRIORITY_INDEX\<rparr>\<rparr>"
  from inv_execution[of validateWritablePath sv evs] have qi: "queueInv w" and li: "logInv w"
    by (simp_all add: w_def)
  have ci: "callbackInv w" unfolding w_def by (rule callbackInv_execution)
  from nextSendable_Some[OF ns] have e: "e \<in> set (queue w)" and run: "status e = RUN"
    and pe: "t_path e = p"
    by (simp_all add: w_def)
  have att: "attempt p w = markCompleted e1 (Aborted None input) w"
    using ns first undef by (simp add: attempt_def w_def input_def e1_def Let_def)
  have o1: "order e1 = order e" and wid: "currentWriteId e1 = currentWriteId e"
    and cb1: "onComplete e1 = onComplete e" by (simp_all add: e1_def)
  have dq: "dequeued (order e) (attempt p w)"
    unfolding att by (rule dequeuedI) (use queueInvD(2)[OF qi e] in \<open>simp_all add: o1\<close>)
  have sub0: "filter (\<lambda>cw. cw_order cw = order e) (submitted w) = []"
  proof (rule filter_none)
    fix cw assume "cw \<in> set (submitted w)"
    show "\<not> cw_order cw = order e"
    proof
      assume "cw_order cw = order e"
      with logInvD(2)[OF li \<open>cw \<in> set (submitted w)\<close> e] first show False by simp
    qed
  qed
  have del0: "filter (\<lambda>x. fst x = order e) (delivered w) = []"
  proof (rule filter_none)
    fix x assume "x \<in> set (delivered w)"
    from logInvD(4)[OF li this e] show "\<not> fst x = order e" by simp
  qed
  have sub1: "filter (\<lambda>cw. cw_order cw = order e) (submitted (attempt p w)) = []"
    unfolding att using sub0 by simp
  have del1: "filter (\<lambda>x. fst x = order e) (delivered (attempt p w)) = [(order e, Aborted None input)]"
    unfolding att using del0 by (simp add: o1)
  have wr: "\<forall>pw\<in>set (writes (attempt p w)). Some (writeId pw) \<noteq> currentWriteId e"
    unfolding att by (auto simp: removeWriteOf_def removeWrite_def wid split: option.splits)
  have dlt: "d < length (deferreds w)" and pend: "promise (deferreds w ! d) = Pending"
    and rp: "ref_path (cbRef (onComplete e)) = p"
    using callbackInvD(2,3,4)[OF ci e] pe by (simp_all add: d_def)
  have "promise (promiseComplete (cbRef (onComplete e)) None False (Some input) (deferreds w ! d)) = res"
    using pend rp by (simp add: promiseComplete_def resolve_def Let_def res_def)
  then have st1: "settledAs d res (attempt p w)"
    unfolding att using dlt
    by (simp add: settledAs_def markCompleted_deferreds_update cb1 d_def)
  have resne: "res \<noteq> Pending" by (simp add: res_def)
  have future: "filter (\<lambda>cw. cw_order cw = order e) (submitted (foldl (step validateWritablePath) (attempt p w) evs')) = []
       \<and> (\<forall>x\<in>set (queue (foldl (step validateWritablePath) (attempt p w) evs')). order x \<noteq> order e)
       \<and> filter (\<lambda>x. fst x = order e) (delivered (foldl (step validateWritablePath) (attempt p w) evs')) =
            [(order e, Aborted None input)]
       \<and> d < length (deferreds (foldl (step validateWritablePath) (attempt p w) evs'))
       \<and> promise (deferreds (foldl (step validateWritablePath) (attempt p w) evs') ! d) = res" for evs'
    using unchangedFor_foldl[OF dq, of validateWritablePath evs'] sub1 del1
      settledAs_foldl[OF st1 resne, of validateWritablePath evs']
    by (simp add: unchangedFor_def dequeued_def settledAs_def)
  have ex1: "execution validateWritablePath sv (evs @ [Attempt p]) = attempt p w"
    by (simp add: execution_append w_def)
  have ex2: "execution validateWritablePath sv (evs @ Attempt p # evs') =
      foldl (step validateWritablePath) (attempt p w) evs'" for evs'
    by (simp add: execution_append w_def)
  show ?thesis
    unfolding ex1 ex2 using run wr future by (simp add: input_def w_def d_def res_def)
qed

theorem undefined_on_first_invocation_witness:
  "nextSendable [''counter'']
      (execution underInfo counterTree [CallRunTransaction counterRef noWrite None]) =
     Some \<lparr>t_path = [''counter''], updateFn = noWrite, order = 0, status = RUN,
           currentInputSnapshot = Null, currentOutputValue = None, t_applyLocally = True,
           onComplete = PromiseComplete 0 counterRef, unwatcher = 0, currentWriteId = None,
           attempts = 0\<rparr>
   \<and> noWrite (overlayedValue
        (execution underInfo counterTree [CallRunTransaction counterRef noWrite None])
        [''counter'']) = ReturnUndefined
   \<and> fst (runTransaction underInfo subscribe enqueueTransaction counterRef noWrite None
        (initial counterTree)) = Inr 0
   \<and> submitted (execution underInfo counterTree
        [CallRunTransaction counterRef noWrite None, Attempt [''counter''],
         Attempt [''counter''], ServerVerdict [''counter''] Accept]) = []
   \<and> delivered (execution underInfo counterTree
        [CallRunTransaction counterRef noWrite None, Attempt [''counter''],
         Attempt [''counter''], ServerVerdict [''counter''] Accept]) = [(0, Aborted None (Num 5))]
   \<and> promise (deferreds (execution underInfo counterTree
        [CallRunTransaction counterRef noWrite None, Attempt [''counter''],
         Attempt [''counter''], ServerVerdict [''counter''] Accept]) ! 0) =
       Fulfilled \<lparr>committed = False,
                  snapshot = \<lparr>snap_node = Some (Num 5), snap_ref = counterRef,
                              snap_index = PRIORITY_INDEX\<rparr>\<rparr>"
  using undefined_on_first_invocation [where validateWritablePath = underInfo and sv = counterTree
      and evs = "[CallRunTransaction counterRef noWrite None]" and p = "[''counter'']"
      and e = "\<lparr>t_path = [''counter''], updateFn = noWrite, order = 0, status = RUN,
           currentInputSnapshot = Null, currentOutputValue = None, t_applyLocally = True,
           onComplete = PromiseComplete 0 counterRef, unwatcher = 0, currentWriteId = None,
           attempts = 0\<rparr>"]
  by (simp add: eval_defs underInfo_def noWrite_def counterRef_def counterTree_def)

lemma abortAll_delivered_other:
  "(\<forall>x\<in>set es. order x \<noteq> n) \<Longrightarrow>
   filter (\<lambda>x. fst x = n) (delivered (abortAll es w)) = filter (\<lambda>x. fst x = n) (delivered w)"
  by (induction es arbitrary: w) (simp_all add: abortTransaction_def)

lemma abortAll_delivers:
  "distinct (map order es) \<Longrightarrow> e \<in> set es \<Longrightarrow>
   \<exists>snap. filter (\<lambda>x. fst x = order e) (delivered (abortAll es w)) =
           filter (\<lambda>x. fst x = order e) (delivered w) @ [(order e, Aborted (Some SET_RAW_VALUE_ERROR) snap)]"
proof (induction es arbitrary: w)
  case Nil
  then show ?case by simp
next
  case (Cons a es)
  show ?case
  proof (cases "order a = order e")
    case True
    from Cons.prems(1) have "order a \<notin> order ` set es" by simp
    have "\<forall>x\<in>set es. order x \<noteq> order e"
    proof
      fix x assume "x \<in> set es"
      then have "order x \<in> order ` set es" by (rule imageI)
      with \<open>order a \<notin> order ` set es\<close> True show "order x \<noteq> order e" by metis
    qed
    from abortAll_delivered_other[OF this, of "abortTransaction a w"] True
    show ?thesis by (simp add: abortTransaction_def)
  next
    case False
    with Cons.prems have "e \<in> set es" "distinct (map order es)" by auto
    from Cons.IH[OF this(2,1), of "abortTransaction a w"] False
    show ?thesis by (simp add: abortTransaction_def)
  qed
qed

text \<open>
  C8. Let \<open>e\<close> be queued and SENT after the events \<open>evs\<close>, and let an overwrite be notified
  on a path that overlaps the path of \<open>e\<close>. Whatever happens afterwards (the server's
  verdict included), the one outcome delivered for \<open>e\<close> is aborted with
  SET_RAW_VALUE_ERROR, the write-canceled condition, and \<open>e\<close> is not in the queue.
\<close>

theorem overwrite_aborts_sent:
  assumes e: "e \<in> set (queue (execution validateWritablePath sv evs))"
    and sent: "status e = SENT"
    and ov: "overlapping q (t_path e)"
  shows "\<exists>snap. \<forall>evs'.
           filter (\<lambda>x. fst x = order e)
             (delivered (execution validateWritablePath sv (evs @ NotifyOverwrite q # evs'))) =
             [(order e, Aborted (Some SET_RAW_VALUE_ERROR) snap)]
         \<and> (\<forall>x\<in>set (queue (execution validateWritablePath sv (evs @ NotifyOverwrite q # evs'))).
               order x \<noteq> order e)"
proof -
  define w where "w = execution validateWritablePath sv evs"
  define es where "es = filter (\<lambda>x. overlapping q (t_path x)) (queue w)"
  from inv_execution[of validateWritablePath sv evs] have qi: "queueInv w" and li: "logInv w"
    by (simp_all add: w_def)
  have e': "e \<in> set (queue w)" using e by (simp add: w_def)
  have ees: "e \<in> set es" using e' ov by (simp add: es_def)
  have des: "distinct (map order es)"
    unfolding es_def using queueInvD(1)[OF qi] by (rule distinct_map_filter)
  have ab: "abortAllDescendants q w = abortAll es w" by (simp add: abortAllDescendants_def es_def)
  have del0: "filter (\<lambda>x. fst x = order e) (delivered w) = []"
  proof (rule filter_none)
    fix x assume "x \<in> set (delivered w)"
    from logInvD(4)[OF li this e'] show "\<not> fst x = order e" by simp
  qed
  from abortAll_delivers[OF des ees, of w] del0 obtain snap where
    del1: "filter (\<lambda>x. fst x = order e) (delivered (abortAll es w)) =
             [(order e, Aborted (Some SET_RAW_VALUE_ERROR) snap)]" by auto
  have dq: "dequeued (order e) (abortAll es w)"
  proof (rule dequeuedI)
    show "order e < nextOrder (abortAll es w)" using queueInvD(2)[OF qi e'] by simp
    fix x assume "x \<in> set (queue (abortAll es w))"
    then show "order x \<noteq> order e" using ees by (auto simp: abortAll_queue)
  qed
  have ex: "execution validateWritablePath sv (evs @ NotifyOverwrite q # evs') =
      foldl (step validateWritablePath) (abortAll es w) evs'" for evs'
    using ab by (simp add: execution_append w_def)
  have "filter (\<lambda>x. fst x = order e) (delivered (foldl (step validateWritablePath) (abortAll es w) evs')) =
             [(order e, Aborted (Some SET_RAW_VALUE_ERROR) snap)]
       \<and> (\<forall>x\<in>set (queue (foldl (step validateWritablePath) (abortAll es w) evs')). order x \<noteq> order e)" for evs'
    using unchangedFor_foldl[OF dq, of validateWritablePath evs'] del1
    by (simp add: unchangedFor_def dequeued_def)
  then show ?thesis unfolding ex by blast
qed

theorem overwrite_aborts_sent_witness:
  "\<lparr>t_path = [''counter''], updateFn = increment, order = 0, status = SENT,
           currentInputSnapshot = Num 5, currentOutputValue = Some (Num 6), t_applyLocally = True,
           onComplete = PromiseComplete 0 counterRef, unwatcher = 0, currentWriteId = Some 0,
           attempts = 1\<rparr>
     \<in> set (queue (execution underInfo counterTree
            [CallRunTransaction counterRef increment None, Attempt [''counter'']]))
   \<and> overlapping [] [''counter'']
   \<and> delivered (execution underInfo counterTree
        [CallRunTransaction counterRef increment None, Attempt [''counter''],
         NotifyOverwrite [], ServerVerdict [''counter''] Accept]) =
       [(0, Aborted (Some SET_RAW_VALUE_ERROR) (Num 5))]
   \<and> map promise (deferreds (execution underInfo counterTree
        [CallRunTransaction counterRef increment None, Attempt [''counter''],
         NotifyOverwrite [], ServerVerdict [''counter''] Accept])) =
       [Fulfilled \<lparr>committed = False,
                   snapshot = \<lparr>snap_node = Some (Num 5), snap_ref = counterRef,
                               snap_index = PRIORITY_INDEX\<rparr>\<rparr>]"
  using overwrite_aborts_sent [where validateWritablePath = underInfo and sv = counterTree
      and evs = "[CallRunTransaction counterRef increment None, Attempt [''counter'']]" and q = "[]"
      and e = "\<lparr>t_path = [''counter''], updateFn = increment, order = 0, status = SENT,
           currentInputSnapshot = Num 5, currentOutputValue = Some (Num 6), t_applyLocally = True,
           onComplete = PromiseComplete 0 counterRef, unwatcher = 0, currentWriteId = Some 0,
           attempts = 1\<rparr>"]
  by (simp add: eval_defs underInfo_def increment_def counterRef_def counterTree_def)

end
